theory Spec2Isabelle
  imports Main "HOL-Library.Word"
begin

section \<open>The pieces of the Go runtime that bee.go is built from\<close>

text \<open>
  The package \<^verbatim>\<open>bee\<close> is one file, \<^verbatim>\<open>bee.go\<close>: a \<^verbatim>\<open>Pool\<close> that admits tasks through a
  \<^verbatim>\<open>select\<close> over three channel operations and runs each admitted task on a goroutine
  of its own. The program is concurrent, so it is embedded as a transition system: the
  state holds the pool, the submission calls in flight and the goroutines, each with a
  program counter that names the statement of \<^verbatim>\<open>bee.go\<close> it executes next; one
  transition is one atomic operation of one thread (a channel operation, an atomic
  \<^verbatim>\<open>Add\<close>, a call of \<^verbatim>\<open>closeDone\<close>), and the scheduler's choices are the labels.

  A \<^verbatim>\<open>context.Context\<close> is an opaque handle; only its identity and whether its
  \<^verbatim>\<open>Done()\<close> channel is closed matter to the pool.
\<close>

type_synonym ctx_id = nat

text \<open>
  The three ways anything in this program can panic: \<^verbatim>\<open>make(chan struct{}, size)\<close> with a
  negative size, \<^verbatim>\<open>close\<close> of a channel that is closed already, and a task body that panics.
\<close>

datatype fault = MakechanSizeOutOfRange | CloseOfClosedChannel | TaskPanic

text \<open>
  A \<^verbatim>\<open>chan struct{}\<close>: the elements carry no data, so a channel is its capacity, the
  number of buffered elements, and whether it has been closed.
\<close>

record chan =
  chan_cap :: nat
  chan_len :: nat
  chan_closed :: bool

text \<open>
  \<^verbatim>\<open>make(chan struct{}, size)\<close>: the runtime's \<^verbatim>\<open>makechan\<close> panics with
  ``makechan: size out of range'' when \<^verbatim>\<open>size < 0\<close> (the element type has size zero, so
  no positive size overflows the allocation).
\<close>

definition make_chan :: "int \<Rightarrow> fault + chan" where
  "make_chan sz =
     (if sz < 0 then Inl MakechanSizeOutOfRange
      else Inr \<lparr>chan_cap = nat sz, chan_len = 0, chan_closed = False\<rparr>)"

text \<open>
  A buffered send proceeds when the buffer has room; a receive proceeds when an element
  is buffered, or at once (with the zero value) when the channel is closed. \<open>None\<close> is
  ``cannot proceed now'': the operation blocks, or the \<^verbatim>\<open>select\<close> case is not ready.
  The meeting of a sender and a receiver on a channel of capacity 0 is the transition
  \<open>handoff\<close> below.
\<close>

definition chan_send :: "chan \<Rightarrow> chan option" where
  "chan_send ch =
     (if chan_len ch < chan_cap ch then Some (ch\<lparr>chan_len := chan_len ch + 1\<rparr>) else None)"

definition chan_recv :: "chan \<Rightarrow> chan option" where
  "chan_recv ch =
     (if 0 < chan_len ch then Some (ch\<lparr>chan_len := chan_len ch - 1\<rparr>)
      else if chan_closed ch then Some ch
      else None)"

definition chan_close :: "chan \<Rightarrow> fault + chan" where
  "chan_close ch =
     (if chan_closed ch then Inl CloseOfClosedChannel else Inr (ch\<lparr>chan_closed := True\<rparr>))"

text \<open>
  The built-in \<^verbatim>\<open>recover\<close>. The language specification: ``The return value of recover
  is nil when the goroutine is not panicking or recover was not called directly by a
  deferred function.'' Only a non-nil return stops the panicking sequence. The result
  here is whether the panic was stopped.
\<close>

definition recover :: "bool \<Rightarrow> bool \<Rightarrow> bool" where
  "recover called_directly_by_deferred_function is_panicking =
     (is_panicking \<and> called_directly_by_deferred_function)"

section \<open>The Pool\<close>

text \<open>
  \<^verbatim>\<open>type Pool struct\<close>, field by field. The field \<^verbatim>\<open>done\<close> is \<open>done_ch\<close> here. The
  field \<^verbatim>\<open>closeDone\<close> holds \<^verbatim>\<open>sync.OnceFunc(func() { close(done) })\<close>; the only state of
  that function value is whether its \<^verbatim>\<open>Once\<close> has run, \<open>closeDone_once\<close>.
  \<^verbatim>\<open>atomic.Int32\<close> and \<^verbatim>\<open>atomic.Int64\<close> are machine words: \<^verbatim>\<open>Add\<close> wraps around.
\<close>

record Pool =
  ctx :: ctx_id
  work :: chan
  done_ch :: chan
  closeDone_once :: bool
  running :: "32 word"
  worked :: "64 word"
  index :: "64 word"

definition New :: "ctx_id \<Rightarrow> int \<Rightarrow> fault + Pool" where
  "New c sz =
     (case make_chan 0 of
        Inl e \<Rightarrow> Inl e
      | Inr d \<Rightarrow>
          (case make_chan sz of
             Inl e \<Rightarrow> Inl e
           | Inr w \<Rightarrow>
               Inr \<lparr>ctx = c, work = w, done_ch = d, closeDone_once = False,
                    running = 0, worked = 0, index = 0\<rparr>))"

text \<open>
  A call of \<^verbatim>\<open>p.closeDone()\<close>. \<^verbatim>\<open>sync.Once\<close> serialises its callers under a mutex, so
  the call is one atomic transition: the first call runs \<^verbatim>\<open>close(done)\<close>, every later
  call returns without running it.
\<close>

definition closeDone :: "Pool \<Rightarrow> fault + Pool" where
  "closeDone p =
     (if closeDone_once p then Inr p
      else (case chan_close (done_ch p) of
              Inl e \<Rightarrow> Inl e
            | Inr d \<Rightarrow> Inr (p\<lparr>done_ch := d, closeDone_once := True\<rparr>)))"

definition Exit :: "Pool \<Rightarrow> fault + Pool" where
  "Exit p = closeDone p"

definition Worked :: "Pool \<Rightarrow> 64 word" where
  "Worked p = worked p"

definition Running :: "Pool \<Rightarrow> 32 word" where
  "Running p = running p"

section \<open>Threads\<close>

text \<open>
  The function value that \<^verbatim>\<open>RunWithContextAndIndex\<close> receives: the caller's own
  \<^verbatim>\<open>func(ctx, index)\<close>, or one of the two wrappers that \<^verbatim>\<open>RunWithContext\<close> and \<^verbatim>\<open>Run\<close>
  build around the caller's function. The user's code is opaque; \<open>user_args\<close> is what
  it is handed.
\<close>

datatype task_fn = Direct | WrapCtx | WrapPlain

fun user_args :: "task_fn \<Rightarrow> ctx_id \<Rightarrow> 64 word \<Rightarrow> ctx_id option \<times> 64 word option" where
  "user_args Direct c i = (Some c, Some i)"
| "user_args WrapCtx c i = (Some c, None)"
| "user_args WrapPlain c i = (None, None)"

text \<open>
  A call of \<^verbatim>\<open>RunWithContextAndIndex\<close> in flight. Its program counter: at the
  \<^verbatim>\<open>select\<close>; in the first case, before \<^verbatim>\<open>p.closeDone()\<close>; in the third case, before
  \<^verbatim>\<open>p.running.Add(1)\<close> and before the \<^verbatim>\<open>go\<close> statement; or returned, with its result.
\<close>

datatype submit_pc = AtSelect | AtCloseDone | AtRunningAdd | AtGo | Returned bool

record submission =
  fn :: task_fn
  spc :: submit_pc

text \<open>
  A goroutine started by the \<^verbatim>\<open>go\<close> statement. It has deferred the clean-up closure and
  then \<^verbatim>\<open>recover()\<close>, and stands: before the call \<^verbatim>\<open>f(p.ctx, p.index.Add(1))\<close>; inside
  \<^verbatim>\<open>f\<close>; then, the deferred calls running last-in first-out, before the deferred
  \<^verbatim>\<open>recover()\<close>, before \<^verbatim>\<open><-p.work\<close>, before \<^verbatim>\<open>p.running.Add(-1)\<close>, before
  \<^verbatim>\<open>p.worked.Add(1)\<close>, and at the end of the goroutine's function; or it has ended.
  \<open>args\<close> are the arguments \<^verbatim>\<open>f\<close> was called with.
\<close>

datatype task_pc =
  AtCall | InBody | AtRecover | AtWorkRecv | AtRunningSub | AtWorkedAdd | AtEnd | Ended

record goroutine =
  task :: task_fn
  gpc :: task_pc
  args :: "(ctx_id \<times> 64 word) option"
  panicking :: bool

text \<open>
  The whole program: the pool, the contexts whose \<^verbatim>\<open>Done()\<close> channel is closed, the
  submission calls, the goroutines, and the panic that has terminated the process, if any.
\<close>

record system =
  pool :: Pool
  fired :: "ctx_id set"
  callers :: "submission list"
  tasks :: "goroutine list"
  crashed :: "fault option"

definition boot :: "ctx_id set \<Rightarrow> Pool \<Rightarrow> system" where
  "boot F p = \<lparr>pool = p, fired = F, callers = [], tasks = [], crashed = None\<rparr>"

definition set_spc :: "nat \<Rightarrow> submit_pc \<Rightarrow> system \<Rightarrow> system" where
  "set_spc i q s = s\<lparr>callers := (callers s)[i := (callers s ! i)\<lparr>spc := q\<rparr>]\<rparr>"

definition set_task :: "nat \<Rightarrow> goroutine \<Rightarrow> system \<Rightarrow> system" where
  "set_task j g s = s\<lparr>tasks := (tasks s)[j := g]\<rparr>"

section \<open>Submission\<close>

text \<open>
  Entering \<^verbatim>\<open>RunWithContextAndIndex(f)\<close> puts a call at its \<^verbatim>\<open>select\<close>. \<^verbatim>\<open>Run\<close> and
  \<^verbatim>\<open>RunWithContext\<close> do nothing but call it with their wrapper.
\<close>

definition RunWithContextAndIndex :: "task_fn \<Rightarrow> system \<Rightarrow> system" where
  "RunWithContextAndIndex f s = s\<lparr>callers := callers s @ [\<lparr>fn = f, spc = AtSelect\<rparr>]\<rparr>"

definition Run :: "system \<Rightarrow> system" where
  "Run s = RunWithContextAndIndex WrapPlain s"

definition RunWithContext :: "system \<Rightarrow> system" where
  "RunWithContext s = RunWithContextAndIndex WrapCtx s"

text \<open>
  The \<^verbatim>\<open>select\<close> statement. Go chooses among the cases that can proceed by a uniform
  pseudo-random selection, and blocks when none can; so the case is a choice of the
  scheduler, possible exactly when that case is ready.
\<close>

datatype select_case = CaseCtxDone | CaseDone | CaseWork

definition select_commit :: "nat \<Rightarrow> select_case \<Rightarrow> system \<Rightarrow> system option" where
  "select_commit i c s =
     (if i < length (callers s) \<and> spc (callers s ! i) = AtSelect then
        (case c of
           CaseCtxDone \<Rightarrow>
             (if ctx (pool s) \<in> fired s then Some (set_spc i AtCloseDone s) else None)
         | CaseDone \<Rightarrow>
             (case chan_recv (done_ch (pool s)) of
                None \<Rightarrow> None
              | Some d \<Rightarrow> Some (set_spc i (Returned False) (s\<lparr>pool := (pool s)\<lparr>done_ch := d\<rparr>\<rparr>)))
         | CaseWork \<Rightarrow>
             (case chan_send (work (pool s)) of
                None \<Rightarrow> None
              | Some w \<Rightarrow> Some (set_spc i AtRunningAdd (s\<lparr>pool := (pool s)\<lparr>work := w\<rparr>\<rparr>))))
      else None)"

text \<open>
  On an unbuffered \<^verbatim>\<open>work\<close> channel (capacity 0) the send case can proceed only by
  meeting a goroutine that is blocked in \<^verbatim>\<open><-p.work\<close>: both move on together.
\<close>

definition handoff :: "nat \<Rightarrow> nat \<Rightarrow> system \<Rightarrow> system option" where
  "handoff i j s =
     (if chan_cap (work (pool s)) = 0
         \<and> i < length (callers s) \<and> spc (callers s ! i) = AtSelect
         \<and> j < length (tasks s) \<and> gpc (tasks s ! j) = AtWorkRecv
      then Some (set_spc i AtRunningAdd (set_task j ((tasks s ! j)\<lparr>gpc := AtRunningSub\<rparr>) s))
      else None)"

text \<open>The statements of \<^verbatim>\<open>RunWithContextAndIndex\<close> after the \<^verbatim>\<open>select\<close> has chosen.\<close>

definition caller_step :: "nat \<Rightarrow> system \<Rightarrow> system option" where
  "caller_step i s =
     (if i < length (callers s) then
        (case spc (callers s ! i) of
           AtSelect \<Rightarrow> None
         | AtCloseDone \<Rightarrow>
             (case closeDone (pool s) of
                Inl e \<Rightarrow> Some (s\<lparr>crashed := Some e\<rparr>)
              | Inr p \<Rightarrow> Some (set_spc i (Returned False) (s\<lparr>pool := p\<rparr>)))
         | AtRunningAdd \<Rightarrow>
             Some (set_spc i AtGo (s\<lparr>pool := (pool s)\<lparr>running := running (pool s) + 1\<rparr>\<rparr>))
         | AtGo \<Rightarrow>
             Some (set_spc i (Returned True)
                    (s\<lparr>tasks := tasks s @
                        [\<lparr>task = fn (callers s ! i), gpc = AtCall, args = None,
                          panicking = False\<rparr>]\<rparr>))
         | Returned r \<Rightarrow> None)
      else None)"

section \<open>The goroutine of an admitted task\<close>

text \<open>
  The statements of the function literal after \<^verbatim>\<open>go\<close>. The deferred \<^verbatim>\<open>recover()\<close> is
  the deferred call itself: it is run by the runtime, not by a deferred function, so
  its first argument here is \<open>False\<close>. A goroutine that reaches the end of its function
  still panicking terminates the process.
\<close>

definition task_step :: "nat \<Rightarrow> system \<Rightarrow> system option" where
  "task_step j s =
     (if j < length (tasks s) then
        (let g = tasks s ! j; p = pool s in
         case gpc g of
           AtCall \<Rightarrow>
             Some (set_task j (g\<lparr>gpc := InBody, args := Some (ctx p, index p + 1)\<rparr>)
                    (s\<lparr>pool := p\<lparr>index := index p + 1\<rparr>\<rparr>))
         | InBody \<Rightarrow> None
         | AtRecover \<Rightarrow>
             Some (set_task j
                    (g\<lparr>gpc := AtWorkRecv,
                       panicking := panicking g \<and> \<not> recover False (panicking g)\<rparr>) s)
         | AtWorkRecv \<Rightarrow>
             (case chan_recv (work p) of
                None \<Rightarrow> None
              | Some w \<Rightarrow> Some (set_task j (g\<lparr>gpc := AtRunningSub\<rparr>) (s\<lparr>pool := p\<lparr>work := w\<rparr>\<rparr>)))
         | AtRunningSub \<Rightarrow>
             Some (set_task j (g\<lparr>gpc := AtWorkedAdd\<rparr>)
                    (s\<lparr>pool := p\<lparr>running := running p + (- 1)\<rparr>\<rparr>))
         | AtWorkedAdd \<Rightarrow>
             Some (set_task j (g\<lparr>gpc := AtEnd\<rparr>) (s\<lparr>pool := p\<lparr>worked := worked p + 1\<rparr>\<rparr>))
         | AtEnd \<Rightarrow>
             (if panicking g then Some (s\<lparr>crashed := Some TaskPanic\<rparr>)
              else Some (set_task j (g\<lparr>gpc := Ended\<rparr>) s))
         | Ended \<Rightarrow> None)
      else None)"

text \<open>The user's task body is opaque: it ends by returning or by panicking.\<close>

datatype outcome = Returns | Panics

definition body_ends :: "nat \<Rightarrow> outcome \<Rightarrow> system \<Rightarrow> system option" where
  "body_ends j r s =
     (if j < length (tasks s) \<and> gpc (tasks s ! j) = InBody
      then Some (set_task j ((tasks s ! j)\<lparr>gpc := AtRecover, panicking := (r = Panics)\<rparr>) s)
      else None)"

section \<open>Transitions and runs\<close>

text \<open>
  The labels: the cancellation source fires; a caller enters one of the three submission
  functions; a caller runs \<^verbatim>\<open>Exit\<close>; a \<^verbatim>\<open>select\<close> commits to a case; a hand-off; a
  caller or a goroutine executes its next statement; a task body ends. Nothing moves
  once the process has been terminated by a panic.
\<close>

datatype action =
    Cancel ctx_id
  | CallRun
  | CallRunWithContext
  | CallRunWithContextAndIndex
  | CallExit
  | Select nat select_case
  | Handoff nat nat
  | CallerStep nat
  | TaskStep nat
  | BodyEnds nat outcome

definition step :: "action \<Rightarrow> system \<Rightarrow> system option" where
  "step a s =
     (if crashed s \<noteq> None then None
      else (case a of
              Cancel c \<Rightarrow> Some (s\<lparr>fired := insert c (fired s)\<rparr>)
            | CallRun \<Rightarrow> Some (Run s)
            | CallRunWithContext \<Rightarrow> Some (RunWithContext s)
            | CallRunWithContextAndIndex \<Rightarrow> Some (RunWithContextAndIndex Direct s)
            | CallExit \<Rightarrow>
                (case Exit (pool s) of
                   Inl e \<Rightarrow> Some (s\<lparr>crashed := Some e\<rparr>)
                 | Inr p \<Rightarrow> Some (s\<lparr>pool := p\<rparr>))
            | Select i c \<Rightarrow> select_commit i c s
            | Handoff i j \<Rightarrow> handoff i j s
            | CallerStep i \<Rightarrow> caller_step i s
            | TaskStep j \<Rightarrow> task_step j s
            | BodyEnds j r \<Rightarrow> body_ends j r s))"

fun exec :: "action list \<Rightarrow> system \<Rightarrow> system option" where
  "exec [] s = Some s"
| "exec (a # as) s = (case step a s of None \<Rightarrow> None | Some s' \<Rightarrow> exec as s')"

text \<open>
  A program that constructs a pool with \<^verbatim>\<open>New(c, size)\<close>, where the contexts in \<open>F\<close>
  are cancelled already, and then runs the schedule \<open>as\<close>. \<open>None\<close>: construction
  panicked, or the schedule asks for a transition that cannot be taken.
\<close>

definition run :: "ctx_id \<Rightarrow> int \<Rightarrow> ctx_id set \<Rightarrow> action list \<Rightarrow> system option" where
  "run c sz F as = (case New c sz of Inl e \<Rightarrow> None | Inr p \<Rightarrow> exec as (boot F p))"

section \<open>Observations of a state\<close>

text \<open>
  What the claims speak about is read off a state by counting threads by program
  counter. \<open>how_many P xs\<close> is the number of elements of \<open>xs\<close> that satisfy \<open>P\<close>.
\<close>

definition how_many :: "('a \<Rightarrow> bool) \<Rightarrow> 'a list \<Rightarrow> nat" where
  "how_many P xs = length (filter P xs)"

text \<open>
  A submission call holds a slot of \<^verbatim>\<open>work\<close> from its successful send until its \<^verbatim>\<open>go\<close>
  statement has handed the slot to the goroutine; the goroutine holds it until its
  \<^verbatim>\<open><-p.work\<close>.
\<close>

fun reserved_c :: "submit_pc \<Rightarrow> bool" where
  "reserved_c AtRunningAdd = True"
| "reserved_c AtGo = True"
| "reserved_c _ = False"

fun reserved_g :: "task_pc \<Rightarrow> bool" where
  "reserved_g AtCall = True"
| "reserved_g InBody = True"
| "reserved_g AtRecover = True"
| "reserved_g AtWorkRecv = True"
| "reserved_g _ = False"

definition slots_held :: "system \<Rightarrow> nat" where
  "slots_held s =
     how_many (\<lambda>c. reserved_c (spc c)) (callers s) + how_many (\<lambda>g. reserved_g (gpc g)) (tasks s)"

text \<open>
  The threads that have executed \<^verbatim>\<open>p.running.Add(1)\<close> for a task whose
  \<^verbatim>\<open>p.running.Add(-1)\<close> has not been executed yet; the goroutines that have executed
  \<^verbatim>\<open>p.worked.Add(1)\<close>; the submission calls that have returned \<^verbatim>\<open>true\<close>.
\<close>

fun counted_c :: "submit_pc \<Rightarrow> bool" where
  "counted_c AtGo = True"
| "counted_c _ = False"

fun counted_g :: "task_pc \<Rightarrow> bool" where
  "counted_g AtCall = True"
| "counted_g InBody = True"
| "counted_g AtRecover = True"
| "counted_g AtWorkRecv = True"
| "counted_g AtRunningSub = True"
| "counted_g _ = False"

fun finished_g :: "task_pc \<Rightarrow> bool" where
  "finished_g AtEnd = True"
| "finished_g Ended = True"
| "finished_g _ = False"

definition live :: "system \<Rightarrow> nat" where
  "live s =
     how_many (\<lambda>c. counted_c (spc c)) (callers s) + how_many (\<lambda>g. counted_g (gpc g)) (tasks s)"

definition finished :: "system \<Rightarrow> nat" where
  "finished s = how_many (\<lambda>g. finished_g (gpc g)) (tasks s)"

definition accepted :: "system \<Rightarrow> nat" where
  "accepted s = how_many (\<lambda>c. spc c = Returned True) (callers s)"

text \<open>
  The sequence indices that task functions have been called with, by goroutine in the
  order of the \<^verbatim>\<open>go\<close> statements; their number is the number of goroutines that have
  made the call \<^verbatim>\<open>f(p.ctx, p.index.Add(1))\<close>.
\<close>

fun observed :: "goroutine list \<Rightarrow> 64 word list" where
  "observed [] = []"
| "observed (g # gs) = (case args g of None \<Rightarrow> observed gs | Some (c, i) \<Rightarrow> i # observed gs)"

definition started :: "system \<Rightarrow> nat" where
  "started s = length (observed (tasks s))"

definition verdicts :: "system \<Rightarrow> submit_pc list" where
  "verdicts s = map spc (callers s)"

text \<open>
  The number of transitions of a schedule in which the \<^verbatim>\<open>done\<close> channel goes from open to
  closed: the pool's transitions from Open to Closing.
\<close>

fun closings :: "action list \<Rightarrow> system \<Rightarrow> nat" where
  "closings [] s = 0"
| "closings (a # as) s =
     (case step a s of
        None \<Rightarrow> 0
      | Some s' \<Rightarrow>
          (if \<not> chan_closed (done_ch (pool s)) \<and> chan_closed (done_ch (pool s')) then 1 else 0)
          + closings as s')"

definition run_closings :: "ctx_id \<Rightarrow> int \<Rightarrow> ctx_id set \<Rightarrow> action list \<Rightarrow> nat" where
  "run_closings c sz F as = (case New c sz of Inl e \<Rightarrow> 0 | Inr p \<Rightarrow> closings as (boot F p))"

section \<open>Invariants\<close>

text \<open>
  The buffer of \<^verbatim>\<open>work\<close> holds one element per slot holder, never more than its
  capacity, and \<^verbatim>\<open>work\<close> is never closed.
\<close>

definition inv_slots :: "system \<Rightarrow> bool" where
  "inv_slots s =
     (chan_len (work (pool s)) = slots_held s
      \<and> chan_len (work (pool s)) \<le> chan_cap (work (pool s))
      \<and> \<not> chan_closed (work (pool s)))"

text \<open>The three counters, as machine words, count what their names say.\<close>

definition inv_running :: "system \<Rightarrow> bool" where
  "inv_running s = (running (pool s) = word_of_nat (live s))"

definition inv_worked :: "system \<Rightarrow> bool" where
  "inv_worked s = (worked (pool s) = word_of_nat (finished s))"

definition inv_accepted :: "system \<Rightarrow> bool" where
  "inv_accepted s = (accepted s = length (tasks s))"

text \<open>
  \<^verbatim>\<open>done\<close> is closed exactly when the \<^verbatim>\<open>Once\<close> has run, nothing is ever buffered in it, and neither
  \<^verbatim>\<open>close\<close> nor \<^verbatim>\<open>make\<close> has panicked.
\<close>

definition inv_once :: "system \<Rightarrow> bool" where
  "inv_once s =
     (chan_closed (done_ch (pool s)) = closeDone_once (pool s)
      \<and> chan_len (done_ch (pool s)) = 0
      \<and> crashed s \<noteq> Some CloseOfClosedChannel
      \<and> crashed s \<noteq> Some MakechanSizeOutOfRange)"

text \<open>
  A goroutine has its arguments from the call of \<^verbatim>\<open>f\<close> on, the context among them is the
  pool's, and the indices handed out so far are \<open>1, \<dots>, started\<close>.
\<close>

definition task_ok :: "ctx_id \<Rightarrow> goroutine \<Rightarrow> bool" where
  "task_ok c g = ((gpc g = AtCall) = (args g = None) \<and> (\<forall>c' i. args g = Some (c', i) \<longrightarrow> c' = c))"

definition inv_index :: "system \<Rightarrow> bool" where
  "inv_index s =
     (index (pool s) = word_of_nat (started s)
      \<and> set (observed (tasks s)) = word_of_nat ` {1..started s}
      \<and> list_all (task_ok (ctx (pool s))) (tasks s))"

definition inv_all :: "ctx_id \<Rightarrow> int \<Rightarrow> system \<Rightarrow> bool" where
  "inv_all c sz s =
     (inv_slots s \<and> inv_running s \<and> inv_worked s \<and> inv_accepted s \<and> inv_once s
      \<and> inv_index s \<and> ctx (pool s) = c \<and> chan_cap (work (pool s)) = nat sz \<and> 0 \<le> sz)"

text \<open>With capacity 0 there is never a goroutine, and no call is past its \<^verbatim>\<open>select\<close> on the way to a dispatch.\<close>

definition inv_zero :: "system \<Rightarrow> bool" where
  "inv_zero s =
     (chan_cap (work (pool s)) = 0 \<and> tasks s = []
      \<and> list_all (\<lambda>x. spc x = AtSelect \<or> spc x = AtCloseDone \<or> spc x = Returned False)
           (callers s))"

section \<open>Example schedules\<close>

text \<open>
  Concrete programs on which the theorems below are exercised: a schedule, and the state
  it leads to from \<^verbatim>\<open>New\<close>. Callers and goroutines are numbered from 0, callers in
  the order in which the calls are made, goroutines in the order of the \<^verbatim>\<open>go\<close>
  statements. After its \<open>Select\<close>, the two \<open>CallerStep i\<close> of an admitted call are
  \<^verbatim>\<open>running.Add(1)\<close> and the \<^verbatim>\<open>go\<close> statement with the return of \<^verbatim>\<open>true\<close>. The successive
  \<open>TaskStep j\<close> of one goroutine are, in order: the call of \<^verbatim>\<open>f\<close> with a fresh index,
  then (after the body has ended) the deferred \<^verbatim>\<open>recover()\<close>, \<^verbatim>\<open><-p.work\<close>,
  \<^verbatim>\<open>running.Add(-1)\<close>, \<^verbatim>\<open>worked.Add(1)\<close>, and the end of the goroutine.
\<close>

definition exit_first_schedule :: "action list" where
  "exit_first_schedule =
     [CallExit, CallRun, Select 0 CaseWork, CallerStep 0, CallerStep 0]"

definition exit_first_state :: system where
  "exit_first_state = the (run 0 1 {} exit_first_schedule)"

definition closed_full_schedule :: "action list" where
  "closed_full_schedule =
     [CallRun, Select 0 CaseWork, CallerStep 0, CallerStep 0, CallExit, CallRun]"

definition closed_full_state :: system where
  "closed_full_state = the (run 0 1 {} closed_full_schedule)"

definition reordered_schedule :: "action list" where
  "reordered_schedule =
     [CallRunWithContextAndIndex, Select 0 CaseWork, CallerStep 0, CallerStep 0,
      CallRunWithContextAndIndex, Select 1 CaseWork, CallerStep 1, CallerStep 1,
      TaskStep 1, TaskStep 0]"

definition reordered_state :: system where
  "reordered_state = the (run 0 2 {} reordered_schedule)"

definition sequential_schedule :: "action list" where
  "sequential_schedule =
     [CallRunWithContextAndIndex, Select 0 CaseWork, CallerStep 0, CallerStep 0, TaskStep 0,
      CallRunWithContextAndIndex, Select 1 CaseWork, CallerStep 1, CallerStep 1, TaskStep 1,
      CallRunWithContextAndIndex, Select 2 CaseWork, CallerStep 2, CallerStep 2, TaskStep 2,
      CallRunWithContextAndIndex, Select 3 CaseWork, CallerStep 3, CallerStep 3, TaskStep 3,
      CallRunWithContextAndIndex, Select 4 CaseWork, CallerStep 4, CallerStep 4, TaskStep 4]"

definition sequential_state :: system where
  "sequential_state = the (run 0 5 {} sequential_schedule)"

definition panic_schedule :: "action list" where
  "panic_schedule =
     [CallRun, Select 0 CaseWork, CallerStep 0, CallerStep 0,
      TaskStep 0, BodyEnds 0 Panics, TaskStep 0, TaskStep 0, TaskStep 0, TaskStep 0, TaskStep 0]"

definition cancel_schedule :: "action list" where
  "cancel_schedule =
     [CallRun, Cancel 0]"

definition cancel_state :: system where
  "cancel_state = the (run 0 1 {} cancel_schedule)"

definition one_call_schedule :: "action list" where
  "one_call_schedule =
     [CallRun]"

definition one_call_state :: system where
  "one_call_state = the (run 0 1 {} one_call_schedule)"

definition overlap_schedule :: "action list" where
  "overlap_schedule =
     [CallRun, Select 0 CaseWork, CallerStep 0, CallerStep 0,
      TaskStep 0, BodyEnds 0 Returns, TaskStep 0, TaskStep 0,
      CallRun, Select 1 CaseWork, CallerStep 1]"

definition overlap_state :: system where
  "overlap_state = the (run 0 1 {} overlap_schedule)"

definition panic_first_schedule :: "action list" where
  "panic_first_schedule =
     [CallRun, Select 0 CaseWork, CallerStep 0, CallerStep 0,
      CallRun, Select 1 CaseWork, CallerStep 1, CallerStep 1,
      TaskStep 0, BodyEnds 0 Returns,
      TaskStep 1, BodyEnds 1 Panics, TaskStep 1, TaskStep 1, TaskStep 1, TaskStep 1, TaskStep 1]"

definition zero_blocked_state :: system where
  "zero_blocked_state = the (run 0 0 {} one_call_schedule)"

definition zero_cancelled_state :: system where
  "zero_cancelled_state = the (run 0 0 {} cancel_schedule)"

definition context_schedule :: "action list" where
  "context_schedule =
     [CallRunWithContext, Select 0 CaseWork, CallerStep 0, CallerStep 0, TaskStep 0]"

definition context_state :: system where
  "context_state = the (run 7 1 {} context_schedule)"

section \<open>Counting lemmas\<close>

lemma exec_append:
  "exec (as @ bs) s = (case exec as s of None \<Rightarrow> None | Some s' \<Rightarrow> exec bs s')"
  by (induction as arbitrary: s) (auto split: option.splits)

lemmas model_defs =
  run_def New_def make_chan_def boot_def step_def Run_def RunWithContext_def
  RunWithContextAndIndex_def select_commit_def handoff_def caller_step_def task_step_def
  body_ends_def set_spc_def set_task_def chan_send_def chan_recv_def chan_close_def
  closeDone_def Exit_def recover_def Let_def

lemma how_many_Nil [simp]: "how_many P [] = 0"
  by (simp add: how_many_def)

lemma how_many_Cons [simp]: "how_many P (x # xs) = (if P x then 1 else 0) + how_many P xs"
  by (simp add: how_many_def)

lemma how_many_snoc [simp]: "how_many P (xs @ [x]) = how_many P xs + (if P x then 1 else 0)"
  by (simp add: how_many_def)

lemma how_many_update:
  "i < length xs \<Longrightarrow>
     how_many P (xs[i := x]) + (if P (xs ! i) then 1 else 0) = how_many P xs + (if P x then 1 else 0)"
proof (induction xs arbitrary: i)
  case Nil
  then show ?case by simp
next
  case (Cons y ys)
  then show ?case by (cases i) auto
qed

lemma how_many_same:
  "i < length xs \<Longrightarrow> P (xs ! i) = P x \<Longrightarrow> how_many P (xs[i := x]) = how_many P xs"
  using how_many_update [of i xs P x] by (auto split: if_splits)

lemma how_many_gain:
  "i < length xs \<Longrightarrow> \<not> P (xs ! i) \<Longrightarrow> P x \<Longrightarrow> how_many P (xs[i := x]) = Suc (how_many P xs)"
  using how_many_update [of i xs P x] by (auto split: if_splits)

lemma how_many_lose:
  "i < length xs \<Longrightarrow> P (xs ! i) \<Longrightarrow> \<not> P x \<Longrightarrow> Suc (how_many P (xs[i := x])) = how_many P xs"
  using how_many_update [of i xs P x] by (auto split: if_splits)

lemma how_many_lose_nat:
  "i < length xs \<Longrightarrow> P (xs ! i) \<Longrightarrow> \<not> P x \<Longrightarrow> how_many P (xs[i := x]) = how_many P xs - 1"
  using how_many_lose [of i xs P x] by simp

lemma how_many_lose_word:
  "i < length xs \<Longrightarrow> P (xs ! i) \<Longrightarrow> \<not> P x \<Longrightarrow>
     (word_of_nat (how_many P (xs[i := x])) :: 'a::len word) = word_of_nat (how_many P xs) - 1"
  using how_many_lose [of i xs P x, symmetric] by simp

lemma how_many_pos: "i < length xs \<Longrightarrow> P (xs ! i) \<Longrightarrow> 0 < how_many P xs"
  by (auto simp: how_many_def filter_empty_conv)

lemma how_many_all: "(\<forall>x \<in> set xs. P x) \<Longrightarrow> how_many P xs = length xs"
  by (induction xs) auto

lemma how_many_none: "(\<forall>x \<in> set xs. \<not> P x) \<Longrightarrow> how_many P xs = 0"
  by (induction xs) auto

lemma list_all_update:
  "list_all Q xs \<Longrightarrow> Q y \<Longrightarrow> list_all Q (xs[i := y])"
  using set_update_subset_insert [of xs i y] by (auto simp: list_all_iff)

lemma list_all_nthD: "list_all Q xs \<Longrightarrow> i < length xs \<Longrightarrow> Q (xs ! i)"
  by (simp add: list_all_length)

lemma observed_snoc:
  "observed (gs @ [g]) = observed gs @ (case args g of None \<Rightarrow> [] | Some (c, i) \<Rightarrow> [i])"
  by (induction gs) (auto split: option.splits)

lemma observed_update_same:
  "j < length gs \<Longrightarrow> args g = args (gs ! j) \<Longrightarrow> observed (gs[j := g]) = observed gs"
proof (induction gs arbitrary: j)
  case Nil
  then show ?case by simp
next
  case (Cons x xs)
  then show ?case by (cases j) (auto split: option.splits)
qed

lemma observed_update_new:
  "j < length gs \<Longrightarrow> args (gs ! j) = None \<Longrightarrow> args g = Some (c, i) \<Longrightarrow>
     set (observed (gs[j := g])) = insert i (set (observed gs))
     \<and> length (observed (gs[j := g])) = Suc (length (observed gs))"
proof (induction gs arbitrary: j)
  case Nil
  then show ?case by simp
next
  case (Cons x xs)
  then show ?case by (cases j) (auto split: option.splits)
qed

lemma sint_word_of_nat:
  "n < 2 ^ (LENGTH('a::len) - Suc 0) \<Longrightarrow> sint (word_of_nat n :: 'a word) = int n"
proof -
  assume "n < 2 ^ (LENGTH('a) - Suc 0)"
  then have "int n < 2 ^ (LENGTH('a) - Suc 0)"
    by (metis of_nat_less_iff of_nat_numeral of_nat_power)
  moreover have "- (2 ^ (LENGTH('a) - Suc 0)) \<le> int n"
    by (rule order_trans [of _ 0]) simp_all
  ultimately show ?thesis
    by (simp add: signed_of_nat signed_take_bit_int_eq_self)
qed

lemma word_of_nat_inj_on:
  "n < 2 ^ LENGTH('a::len) \<Longrightarrow> inj_on (word_of_nat :: nat \<Rightarrow> 'a word) {1..n}"
  by (auto simp: inj_on_def word_of_nat_eq_iff take_bit_nat_eq_self)

section \<open>One transition, by cases\<close>

lemma step_cases [consumes 1, case_names Cancel Call Exit ExitFault Select Handoff Caller Task Body]:
  assumes "step a s = Some s'"
  obtains
    c where "a = Cancel c" "s' = s\<lparr>fired := insert c (fired s)\<rparr>"
  | f where "s' = s\<lparr>callers := callers s @ [\<lparr>fn = f, spc = AtSelect\<rparr>]\<rparr>"
  | p where "a = CallExit" "closeDone (pool s) = Inr p" "s' = s\<lparr>pool := p\<rparr>"
  | e where "a = CallExit" "closeDone (pool s) = Inl e" "s' = s\<lparr>crashed := Some e\<rparr>"
  | i c where "a = Select i c" "select_commit i c s = Some s'"
  | i j where "a = Handoff i j" "handoff i j s = Some s'"
  | i where "a = CallerStep i" "caller_step i s = Some s'"
  | j where "a = TaskStep j" "task_step j s = Some s'"
  | j r where "a = BodyEnds j r" "body_ends j r s = Some s'"
  using assms
  by (cases a)
     (auto simp: step_def Run_def RunWithContext_def RunWithContextAndIndex_def Exit_def
           split: if_splits sum.splits)

lemma exec_invariant:
  assumes pres: "\<And>a s s'. step a s = Some s' \<Longrightarrow> I s \<Longrightarrow> I s'"
  shows "exec as s = Some s' \<Longrightarrow> I s \<Longrightarrow> I s'"
proof (induction as arbitrary: s)
  case Nil
  then show ?case by simp
next
  case (Cons a as)
  then show ?case by (auto split: option.splits intro: pres)
qed

lemma closeDone_cases:
  "closeDone p = Inr p' \<Longrightarrow>
     p' = p \<or> p' = p\<lparr>done_ch := (done_ch p)\<lparr>chan_closed := True\<rparr>, closeDone_once := True\<rparr>"
  by (auto simp: closeDone_def chan_close_def split: if_splits)

lemma closeDone_ok:
  "chan_closed (done_ch p) \<longrightarrow> closeDone_once p \<Longrightarrow>
     closeDone p = Inr (if closeDone_once p then p
                        else p\<lparr>done_ch := (done_ch p)\<lparr>chan_closed := True\<rparr>, closeDone_once := True\<rparr>)"
  by (auto simp: closeDone_def chan_close_def)

lemma step_frame:
  assumes "step a s = Some s'"
  shows "ctx (pool s') = ctx (pool s) \<and> chan_cap (work (pool s')) = chan_cap (work (pool s))"
  using assms
proof (cases rule: step_cases)
  case (Exit p)
  with closeDone_cases [of "pool s" p] show ?thesis by auto
next
  case (Select i c)
  then show ?thesis
    by (cases c)
       (auto simp: select_commit_def set_spc_def chan_send_def split: if_splits option.splits)
next
  case (Handoff i j)
  then show ?thesis
    by (auto simp: handoff_def set_spc_def set_task_def split: if_splits)
next
  case (Caller i)
  then show ?thesis
    using closeDone_cases [of "pool s"]
    by (auto simp: caller_step_def set_spc_def split: if_splits submit_pc.splits sum.splits)
next
  case (Task j)
  then show ?thesis
    by (auto simp: task_step_def set_task_def Let_def chan_recv_def
          split: if_splits task_pc.splits option.splits)
next
  case (Body j r)
  then show ?thesis
    by (auto simp: body_ends_def set_task_def split: if_splits)
qed auto

lemma map_update_same:
  assumes "f y = f (xs ! j)"
  shows "map f (xs[j := y]) = map f xs"
proof (cases "j < length xs")
  case True
  with assms show ?thesis by (simp add: map_update list_update_same_conv)
next
  case False
  then have "length xs \<le> j" by arith
  then show ?thesis by (simp only: list_update_beyond)
qed

lemma step_functions:
  assumes "step a s = Some s'"
  shows "take (length (tasks s)) (map task (tasks s')) = map task (tasks s)
     \<and> take (length (callers s)) (map fn (callers s')) = map fn (callers s)"
  using assms
proof (cases rule: step_cases)
  case (Select i c)
  then show ?thesis
    by (cases c)
       (auto simp: select_commit_def set_spc_def map_update_same
          split: if_splits option.splits)
next
  case (Handoff i j)
  then show ?thesis
    by (auto simp: handoff_def set_spc_def set_task_def map_update_same split: if_splits)
next
  case (Caller i)
  then show ?thesis
    by (auto simp: caller_step_def set_spc_def map_update_same
          split: if_splits submit_pc.splits sum.splits)
next
  case (Task j)
  then show ?thesis
    by (auto simp: task_step_def set_task_def Let_def map_update_same
          split: if_splits task_pc.splits option.splits)
next
  case (Body j r)
  then show ?thesis
    by (auto simp: body_ends_def set_task_def map_update_same split: if_splits)
qed auto

lemma step_fired:
  assumes "step a s = Some s'"
  shows "fired s' = fired s \<or> (\<exists>d. a = Cancel d \<and> fired s' = insert d (fired s))"
  using assms
proof (cases rule: step_cases)
  case (Select i c)
  then show ?thesis
    by (cases c)
       (auto simp: select_commit_def set_spc_def split: if_splits option.splits)
next
  case (Handoff i j)
  then show ?thesis
    by (auto simp: handoff_def set_spc_def set_task_def split: if_splits)
next
  case (Caller i)
  then show ?thesis
    by (auto simp: caller_step_def set_spc_def split: if_splits submit_pc.splits sum.splits)
next
  case (Task j)
  then show ?thesis
    by (auto simp: task_step_def set_task_def Let_def
          split: if_splits task_pc.splits option.splits)
next
  case (Body j r)
  then show ?thesis
    by (auto simp: body_ends_def set_task_def split: if_splits)
qed auto

lemma step_closed_stays:
  assumes "step a s = Some s'" and "chan_closed (done_ch (pool s))"
  shows "chan_closed (done_ch (pool s'))"
  using assms
proof (cases rule: step_cases)
  case (Exit p)
  with closeDone_cases [of "pool s" p] assms(2) show ?thesis by auto
next
  case (Select i c)
  with assms(2) show ?thesis
    by (cases c)
       (auto simp: select_commit_def set_spc_def chan_recv_def split: if_splits option.splits)
next
  case (Handoff i j)
  with assms(2) show ?thesis
    by (auto simp: handoff_def set_spc_def set_task_def split: if_splits)
next
  case (Caller i)
  with assms(2) show ?thesis
    using closeDone_cases [of "pool s"]
    by (auto simp: caller_step_def set_spc_def split: if_splits submit_pc.splits sum.splits)
next
  case (Task j)
  with assms(2) show ?thesis
    by (auto simp: task_step_def set_task_def Let_def
          split: if_splits task_pc.splits option.splits)
next
  case (Body j r)
  with assms(2) show ?thesis
    by (auto simp: body_ends_def set_task_def split: if_splits)
qed (use assms(2) in auto)

section \<open>The invariants hold in every state of every run\<close>

lemma inv_slots_select:
  "select_commit i c s = Some s' \<Longrightarrow> inv_slots s \<Longrightarrow> inv_slots s'"
  by (cases c)
     (auto simp: select_commit_def inv_slots_def slots_held_def set_spc_def chan_send_def
        chan_recv_def how_many_same how_many_gain split: if_splits option.splits)

lemma handoff_never:
  assumes v: "inv_slots s"
  shows "handoff i j s = None"
proof (rule ccontr)
  assume "handoff i j s \<noteq> None"
  then have j: "j < length (tasks s)" "gpc (tasks s ! j) = AtWorkRecv"
      "chan_cap (work (pool s)) = 0"
    by (auto simp: handoff_def split: if_splits)
  then have "0 < how_many (\<lambda>g. reserved_g (gpc g)) (tasks s)"
    by (intro how_many_pos [of j]) auto
  with v j show False
    by (simp add: inv_slots_def slots_held_def)
qed

lemma inv_slots_caller:
  assumes st: "caller_step i s = Some s'" and v: "inv_slots s"
  shows "inv_slots s'"
proof (cases "spc (callers s ! i) = AtGo")
  case True
  from st have i: "i < length (callers s)"
    by (auto simp: caller_step_def split: if_splits)
  have pos: "0 < how_many (\<lambda>c. reserved_c (spc c)) (callers s)"
    using i True by (intro how_many_pos [of i]) auto
  from st True i v pos show ?thesis
    by (auto simp: caller_step_def inv_slots_def slots_held_def set_spc_def how_many_lose_nat)
next
  case False
  with st v show ?thesis
    by (auto simp: caller_step_def inv_slots_def slots_held_def set_spc_def closeDone_def
        chan_close_def how_many_same
        split: if_splits submit_pc.splits sum.splits)
qed

lemma inv_slots_task:
  assumes st: "task_step j s = Some s'" and v: "inv_slots s"
  shows "inv_slots s'"
proof (cases "gpc (tasks s ! j) = AtWorkRecv")
  case True
  from st have j: "j < length (tasks s)"
    by (auto simp: task_step_def split: if_splits)
  have pos: "0 < how_many (\<lambda>g. reserved_g (gpc g)) (tasks s)"
    using j True by (intro how_many_pos [of j]) auto
  from st True j v pos show ?thesis
    by (auto simp: task_step_def inv_slots_def slots_held_def set_task_def chan_recv_def Let_def
        how_many_lose_nat split: if_splits)
next
  case False
  with st v show ?thesis
    by (auto simp: task_step_def inv_slots_def slots_held_def set_task_def Let_def
        how_many_same split: if_splits task_pc.splits)
qed

lemma inv_slots_body:
  "body_ends j r s = Some s' \<Longrightarrow> inv_slots s \<Longrightarrow> inv_slots s'"
  by (auto simp: body_ends_def inv_slots_def slots_held_def set_task_def how_many_same
      split: if_splits)

lemma inv_slots_step:
  assumes "step a s = Some s'" and v: "inv_slots s"
  shows "inv_slots s'"
  using assms(1)
proof (cases rule: step_cases)
  case (Exit p)
  with v closeDone_cases [of "pool s" p] show ?thesis
    by (auto simp: inv_slots_def slots_held_def)
next
  case (Handoff i j)
  with v handoff_never [of s i j] show ?thesis by simp
qed (use v in \<open>auto simp: inv_slots_def slots_held_def
       dest: inv_slots_select inv_slots_caller inv_slots_task inv_slots_body\<close>)

lemma inv_running_select:
  "select_commit i c s = Some s' \<Longrightarrow> inv_running s \<Longrightarrow> inv_running s'"
  by (cases c)
     (auto simp: select_commit_def inv_running_def live_def set_spc_def how_many_same
        split: if_splits option.splits)

lemma inv_running_handoff:
  "handoff i j s = Some s' \<Longrightarrow> inv_running s \<Longrightarrow> inv_running s'"
  by (auto simp: handoff_def inv_running_def live_def set_spc_def set_task_def how_many_same
      split: if_splits)

lemma inv_running_caller:
  "caller_step i s = Some s' \<Longrightarrow> inv_running s \<Longrightarrow> inv_running s'"
  by (auto simp: caller_step_def inv_running_def live_def set_spc_def closeDone_def
        chan_close_def how_many_same how_many_gain how_many_lose_word
      split: if_splits submit_pc.splits sum.splits)

lemma inv_running_task:
  "task_step j s = Some s' \<Longrightarrow> inv_running s \<Longrightarrow> inv_running s'"
  by (auto simp: task_step_def inv_running_def live_def set_task_def Let_def
        how_many_same how_many_lose_word
      split: if_splits task_pc.splits option.splits)

lemma inv_running_body:
  "body_ends j r s = Some s' \<Longrightarrow> inv_running s \<Longrightarrow> inv_running s'"
  by (auto simp: body_ends_def inv_running_def live_def set_task_def how_many_same
      split: if_splits)

lemma inv_running_step:
  assumes "step a s = Some s'" and v: "inv_running s"
  shows "inv_running s'"
  using assms(1)
proof (cases rule: step_cases)
  case (Exit p)
  with v closeDone_cases [of "pool s" p] show ?thesis
    by (auto simp: inv_running_def live_def)
qed (use v in \<open>auto simp: inv_running_def live_def
       dest: inv_running_select inv_running_handoff inv_running_caller inv_running_task
         inv_running_body\<close>)

lemma inv_worked_step:
  assumes "step a s = Some s'" and v: "inv_worked s"
  shows "inv_worked s'"
  using assms(1)
proof (cases rule: step_cases)
  case (Exit p)
  with v closeDone_cases [of "pool s" p] show ?thesis
    by (auto simp: inv_worked_def finished_def)
next
  case (Select i c)
  with v show ?thesis
    by (cases c)
       (auto simp: select_commit_def inv_worked_def finished_def set_spc_def
          split: if_splits option.splits)
next
  case (Handoff i j)
  with v show ?thesis
    by (auto simp: handoff_def inv_worked_def finished_def set_spc_def set_task_def
          how_many_same split: if_splits)
next
  case (Caller i)
  with v show ?thesis
    by (auto simp: caller_step_def inv_worked_def finished_def set_spc_def closeDone_def
          chan_close_def split: if_splits submit_pc.splits sum.splits)
next
  case (Task j)
  with v show ?thesis
    by (auto simp: task_step_def inv_worked_def finished_def set_task_def Let_def
          how_many_same how_many_gain split: if_splits task_pc.splits option.splits)
next
  case (Body j r)
  with v show ?thesis
    by (auto simp: body_ends_def inv_worked_def finished_def set_task_def how_many_same
          split: if_splits)
qed (use v in \<open>auto simp: inv_worked_def finished_def\<close>)

lemma inv_accepted_step:
  assumes "step a s = Some s'" and v: "inv_accepted s"
  shows "inv_accepted s'"
  using assms(1)
proof (cases rule: step_cases)
  case (Select i c)
  with v show ?thesis
    by (cases c)
       (auto simp: select_commit_def inv_accepted_def accepted_def set_spc_def how_many_same
          split: if_splits option.splits)
next
  case (Handoff i j)
  with v show ?thesis
    by (auto simp: handoff_def inv_accepted_def accepted_def set_spc_def set_task_def
          how_many_same split: if_splits)
next
  case (Caller i)
  with v show ?thesis
    by (auto simp: caller_step_def inv_accepted_def accepted_def set_spc_def closeDone_def
          chan_close_def how_many_same how_many_gain
          split: if_splits submit_pc.splits sum.splits)
next
  case (Task j)
  with v show ?thesis
    by (auto simp: task_step_def inv_accepted_def accepted_def set_task_def Let_def
          split: if_splits task_pc.splits option.splits)
next
  case (Body j r)
  with v show ?thesis
    by (auto simp: body_ends_def inv_accepted_def accepted_def set_task_def split: if_splits)
qed (use v in \<open>auto simp: inv_accepted_def accepted_def\<close>)

lemma inv_once_step:
  assumes "step a s = Some s'" and v: "inv_once s"
  shows "inv_once s'"
  using assms(1)
proof (cases rule: step_cases)
  case (Exit p)
  with v closeDone_cases [of "pool s" p] show ?thesis
    by (auto simp: inv_once_def)
next
  case (ExitFault e)
  with v closeDone_ok [of "pool s"] show ?thesis
    by (auto simp: inv_once_def)
next
  case (Select i c)
  with v show ?thesis
    by (cases c)
       (auto simp: select_commit_def inv_once_def set_spc_def chan_recv_def
          split: if_splits option.splits)
next
  case (Handoff i j)
  with v show ?thesis
    by (auto simp: handoff_def inv_once_def set_spc_def set_task_def split: if_splits)
next
  case (Caller i)
  with v closeDone_ok [of "pool s"] show ?thesis
    by (auto simp: caller_step_def inv_once_def set_spc_def
          split: if_splits submit_pc.splits sum.splits)
next
  case (Task j)
  with v show ?thesis
    by (auto simp: task_step_def inv_once_def set_task_def Let_def
          split: if_splits task_pc.splits option.splits)
next
  case (Body j r)
  with v show ?thesis
    by (auto simp: body_ends_def inv_once_def set_task_def split: if_splits)
qed (use v in \<open>auto simp: inv_once_def\<close>)

lemma inv_index_task:
  assumes st: "task_step j s = Some s'" and v: "inv_index s"
  shows "inv_index s'"
proof -
  from st have j: "j < length (tasks s)"
    by (auto simp: task_step_def split: if_splits)
  have old: "list_all (task_ok (ctx (pool s))) (tasks s)"
    using v by (simp add: inv_index_def)
  then have ok: "task_ok (ctx (pool s)) (tasks s ! j)"
    using j by (rule list_all_nthD)
  show ?thesis
  proof (cases "gpc (tasks s ! j) = AtCall")
    case True
    let ?i = "index (pool s) + 1"
    let ?g = "(tasks s ! j)\<lparr>gpc := InBody, args := Some (ctx (pool s), ?i)\<rparr>"
    from st True j
    have s': "s' = set_task j ?g (s\<lparr>pool := (pool s)\<lparr>index := ?i\<rparr>\<rparr>)"
      by (simp add: task_step_def Let_def)
    from ok True have none: "args (tasks s ! j) = None"
      by (simp add: task_ok_def)
    have new: "set (observed ((tasks s)[j := ?g])) = insert ?i (set (observed (tasks s)))"
        "length (observed ((tasks s)[j := ?g])) = Suc (length (observed (tasks s)))"
      using observed_update_new [OF j none, of ?g "ctx (pool s)" ?i] by simp_all
    have i: "?i = word_of_nat (Suc (started s))"
      using v by (simp add: inv_index_def)
    have "{1..Suc (started s)} = insert (Suc (started s)) {1..started s}"
      by auto
    then have img: "(word_of_nat ` {1..Suc (started s)} :: 64 word set)
                      = insert ?i (word_of_nat ` {1..started s})"
      using i by (simp add: add.commute)
    have all: "list_all (task_ok (ctx (pool s))) ((tasks s)[j := ?g])"
      by (rule list_all_update [OF old]) (simp add: task_ok_def)
    from v new img all i show ?thesis
      unfolding s' by (simp add: inv_index_def started_def set_task_def)
  next
    case False
    have same: "\<And>q b. observed ((tasks s)[j := (tasks s ! j)\<lparr>gpc := q, panicking := b\<rparr>])
                   = observed (tasks s)"
        "\<And>q. observed ((tasks s)[j := (tasks s ! j)\<lparr>gpc := q\<rparr>]) = observed (tasks s)"
      using j by (simp_all add: observed_update_same)
    have okq: "\<And>q b. q \<noteq> AtCall \<Longrightarrow>
                 task_ok (ctx (pool s)) ((tasks s ! j)\<lparr>gpc := q, panicking := b\<rparr>)"
        "\<And>q. q \<noteq> AtCall \<Longrightarrow> task_ok (ctx (pool s)) ((tasks s ! j)\<lparr>gpc := q\<rparr>)"
      using ok False by (auto simp: task_ok_def)
    have all: "\<And>q b. q \<noteq> AtCall \<Longrightarrow>
                 list_all (task_ok (ctx (pool s)))
                   ((tasks s)[j := (tasks s ! j)\<lparr>gpc := q, panicking := b\<rparr>])"
        "\<And>q. q \<noteq> AtCall \<Longrightarrow>
                 list_all (task_ok (ctx (pool s))) ((tasks s)[j := (tasks s ! j)\<lparr>gpc := q\<rparr>])"
      by (rule list_all_update [OF old], rule okq, assumption)+
    from st False v j show ?thesis
      by (auto simp: task_step_def inv_index_def started_def set_task_def Let_def same all
          split: if_splits task_pc.splits option.splits)
  qed
qed

lemma inv_index_step:
  assumes "step a s = Some s'" and v: "inv_index s"
  shows "inv_index s'"
  using assms(1)
proof (cases rule: step_cases)
  case (Exit p)
  with v closeDone_cases [of "pool s" p] show ?thesis
    by (auto simp: inv_index_def started_def)
next
  case (Select i c)
  with v show ?thesis
    by (cases c)
       (auto simp: select_commit_def inv_index_def started_def set_spc_def
          split: if_splits option.splits)
next
  case (Handoff i j)
  then have j: "j < length (tasks s)" "gpc (tasks s ! j) = AtWorkRecv"
    by (auto simp: handoff_def split: if_splits)
  have old: "list_all (task_ok (ctx (pool s))) (tasks s)"
    using v by (simp add: inv_index_def)
  then have "task_ok (ctx (pool s)) (tasks s ! j)"
    using j(1) by (rule list_all_nthD)
  then have "task_ok (ctx (pool s)) ((tasks s ! j)\<lparr>gpc := AtRunningSub\<rparr>)"
    using j(2) by (auto simp: task_ok_def)
  then have "list_all (task_ok (ctx (pool s))) ((tasks s)[j := (tasks s ! j)\<lparr>gpc := AtRunningSub\<rparr>])"
    by (rule list_all_update [OF old])
  with Handoff v j show ?thesis
    by (auto simp: handoff_def inv_index_def started_def set_spc_def set_task_def
          observed_update_same split: if_splits)
next
  case (Caller i)
  with v show ?thesis
    by (auto simp: caller_step_def inv_index_def started_def set_spc_def closeDone_def
          chan_close_def observed_snoc task_ok_def
          split: if_splits submit_pc.splits sum.splits)
next
  case (Task j)
  with v show ?thesis by (auto dest: inv_index_task)
next
  case (Body j r)
  then have j: "j < length (tasks s)" "gpc (tasks s ! j) = InBody"
    by (auto simp: body_ends_def split: if_splits)
  let ?g = "(tasks s ! j)\<lparr>gpc := AtRecover, panicking := (r = Panics)\<rparr>"
  have old: "list_all (task_ok (ctx (pool s))) (tasks s)"
    using v by (simp add: inv_index_def)
  then have "task_ok (ctx (pool s)) (tasks s ! j)"
    using j(1) by (rule list_all_nthD)
  then have "task_ok (ctx (pool s)) ?g"
    using j(2) by (auto simp: task_ok_def)
  then have "list_all (task_ok (ctx (pool s))) ((tasks s)[j := ?g])"
    by (rule list_all_update [OF old])
  with Body v j show ?thesis
    by (auto simp: body_ends_def inv_index_def started_def set_task_def
          observed_update_same split: if_splits)
qed (use v in \<open>auto simp: inv_index_def started_def\<close>)

lemma run_SomeD:
  assumes "run c sz F as = Some s"
  obtains p where "New c sz = Inr p" "exec as (boot F p) = Some s"
  using assms by (auto simp: run_def split: sum.splits)

lemma New_InrD:
  "New c sz = Inr p \<Longrightarrow>
     0 \<le> sz \<and> p = \<lparr>ctx = c, work = \<lparr>chan_cap = nat sz, chan_len = 0, chan_closed = False\<rparr>,
                     done_ch = \<lparr>chan_cap = 0, chan_len = 0, chan_closed = False\<rparr>,
                     closeDone_once = False, running = 0, worked = 0, index = 0\<rparr>"
  by (auto simp: New_def make_chan_def split: if_splits)

lemma inv_all_boot: "New c sz = Inr p \<Longrightarrow> inv_all c sz (boot F p)"
  by (drule New_InrD)
     (simp add: inv_all_def boot_def inv_slots_def slots_held_def inv_running_def live_def
        inv_worked_def finished_def inv_accepted_def accepted_def inv_once_def inv_index_def
        started_def)

lemma inv_all_step: "step a s = Some s' \<Longrightarrow> inv_all c sz s \<Longrightarrow> inv_all c sz s'"
  using step_frame [of a s s']
  by (simp add: inv_all_def inv_slots_step inv_running_step inv_worked_step inv_accepted_step
        inv_once_step inv_index_step)

lemma run_inv: "run c sz F as = Some s \<Longrightarrow> inv_all c sz s"
proof (erule run_SomeD)
  fix p
  assume "New c sz = Inr p" and "exec as (boot F p) = Some s"
  then show "inv_all c sz s"
    using exec_invariant [of "inv_all c sz" as "boot F p" s]
    by (blast intro: inv_all_step inv_all_boot)
qed

lemma run_append:
  "run c sz F as = Some s \<Longrightarrow> run c sz F (as @ bs) = exec bs s"
  by (auto simp: run_def exec_append split: sum.splits)

section \<open>What single transitions do to the counters\<close>

lemma live_split:
  "live s + how_many (\<lambda>x. spc x = AtRunningAdd) (callers s)
     = slots_held s + how_many (\<lambda>g. gpc g = AtRunningSub) (tasks s)"
proof -
  have c: "how_many (\<lambda>x. counted_c (spc x)) xs + how_many (\<lambda>x. spc x = AtRunningAdd) xs
             = how_many (\<lambda>x. reserved_c (spc x)) xs" for xs
    by (induction xs) (auto elim: reserved_c.elims counted_c.elims)
  have g: "how_many (\<lambda>g. counted_g (gpc g)) gs
             = how_many (\<lambda>g. reserved_g (gpc g)) gs + how_many (\<lambda>g. gpc g = AtRunningSub) gs" for gs
    by (induction gs) (auto elim: reserved_g.elims counted_g.elims)
  show ?thesis
    using c [of "callers s"] g [of "tasks s"] by (simp add: live_def slots_held_def)
qed

lemma step_running:
  assumes "step a s = Some s'"
  shows "(running (pool s') = running (pool s) + 1
            \<and> (\<exists>i. a = CallerStep i \<and> spc (callers s ! i) = AtRunningAdd))
         \<or> (running (pool s') = running (pool s) - 1
            \<and> (\<exists>j. a = TaskStep j \<and> gpc (tasks s ! j) = AtRunningSub))
         \<or> running (pool s') = running (pool s)"
  using assms
proof (cases rule: step_cases)
  case (Exit p)
  with closeDone_cases [of "pool s" p] show ?thesis by auto
next
  case (Select i c)
  then show ?thesis
    by (cases c)
       (auto simp: select_commit_def set_spc_def split: if_splits option.splits)
next
  case (Handoff i j)
  then show ?thesis
    by (auto simp: handoff_def set_spc_def set_task_def split: if_splits)
next
  case (Caller i)
  then show ?thesis
    using closeDone_cases [of "pool s"]
    by (auto simp: caller_step_def set_spc_def split: if_splits submit_pc.splits sum.splits)
next
  case (Task j)
  then show ?thesis
    by (auto simp: task_step_def set_task_def Let_def
          split: if_splits task_pc.splits option.splits)
next
  case (Body j r)
  then show ?thesis
    by (auto simp: body_ends_def set_task_def split: if_splits)
qed auto

lemma index_call_enabled:
  "j < length (tasks s) \<Longrightarrow> gpc (tasks s ! j) = AtCall \<Longrightarrow> crashed s = None \<Longrightarrow>
     step (TaskStep j) s
       = Some (set_task j ((tasks s ! j)\<lparr>gpc := InBody, args := Some (ctx (pool s), index (pool s) + 1)\<rparr>)
                (s\<lparr>pool := (pool s)\<lparr>index := index (pool s) + 1\<rparr>\<rparr>))"
  by (simp add: step_def task_step_def Let_def)

section \<open>Helper facts about calls, the closed signal and capacity 0\<close>

lemma step_callers:
  assumes "step a s = Some s'"
  shows "length (callers s) \<le> length (callers s')"
  using assms
proof (cases rule: step_cases)
  case (Select i c)
  then show ?thesis
    by (cases c)
       (auto simp: select_commit_def set_spc_def split: if_splits option.splits)
next
  case (Handoff i j)
  then show ?thesis
    by (auto simp: handoff_def set_spc_def set_task_def split: if_splits)
next
  case (Caller i)
  then show ?thesis
    by (auto simp: caller_step_def set_spc_def split: if_splits submit_pc.splits sum.splits)
next
  case (Task j)
  then show ?thesis
    by (auto simp: task_step_def set_task_def Let_def
          split: if_splits task_pc.splits option.splits)
next
  case (Body j r)
  then show ?thesis
    by (auto simp: body_ends_def set_task_def split: if_splits)
qed auto

lemma exec_callers: "exec bs s = Some t \<Longrightarrow> length (callers s) \<le> length (callers t)"
proof (induction bs arbitrary: s)
  case Nil
  then show ?case by simp
next
  case (Cons a bs)
  then show ?case
    by (auto split: option.splits dest!: step_callers) fastforce
qed

lemma exec_closed_stays:
  "exec bs s = Some t \<Longrightarrow> chan_closed (done_ch (pool s)) \<Longrightarrow> chan_closed (done_ch (pool t))"
  using exec_invariant [of "\<lambda>s. chan_closed (done_ch (pool s))" bs s t]
  by (blast intro: step_closed_stays)

lemma exec_inv: "exec bs s = Some t \<Longrightarrow> inv_all c sz s \<Longrightarrow> inv_all c sz t"
  using exec_invariant [of "inv_all c sz" bs s t] by (blast intro: inv_all_step)

lemma closeDone_reachable:
  assumes v: "inv_all c sz s"
  shows "closeDone (pool s)
           = Inr (if chan_closed (done_ch (pool s)) then pool s
                  else (pool s)\<lparr>done_ch := (done_ch (pool s))\<lparr>chan_closed := True\<rparr>,
                               closeDone_once := True\<rparr>)"
proof -
  from v have e: "chan_closed (done_ch (pool s)) = closeDone_once (pool s)"
    by (simp add: inv_all_def inv_once_def)
  then have "chan_closed (done_ch (pool s)) \<longrightarrow> closeDone_once (pool s)" by simp
  from closeDone_ok [OF this] e show ?thesis by simp
qed

lemma closeDone_closed: "closeDone_once p \<Longrightarrow> closeDone p = Inr p"
  by (simp add: closeDone_def)

lemma closeDone_at_caller:
  assumes v: "inv_all c sz t" and al: "crashed t = None"
      and i: "i < length (callers t)" and at: "spc (callers t ! i) = AtCloseDone"
  shows "step (CallerStep i) t
           = Some (set_spc i (Returned False)
                    (t\<lparr>pool := (if closeDone_once (pool t) then pool t
                                 else (pool t)\<lparr>done_ch := (done_ch (pool t))\<lparr>chan_closed := True\<rparr>,
                                              closeDone_once := True\<rparr>)\<rparr>))"
proof -
  from v have "chan_closed (done_ch (pool t)) \<longrightarrow> closeDone_once (pool t)"
    by (simp add: inv_all_def inv_once_def)
  from closeDone_ok [OF this] al i at show ?thesis
    by (simp add: step_def caller_step_def)
qed

lemma select_done_ready:
  assumes v: "inv_all c sz s" and al: "crashed s = None"
      and cl: "chan_closed (done_ch (pool s))"
      and i: "i < length (callers s)" and at: "spc (callers s ! i) = AtSelect"
  shows "step (Select i CaseDone) s = Some (set_spc i (Returned False) s)"
proof -
  from v have "chan_len (done_ch (pool s)) = 0"
    by (simp add: inv_all_def inv_once_def)
  with al cl i at show ?thesis
    by (simp add: step_def select_commit_def chan_recv_def)
qed

lemma select_without_slot:
  assumes v: "inv_all c sz s"
      and full: "chan_len (work (pool s)) = chan_cap (work (pool s))"
      and a: "(\<exists>k. a = Select i k) \<or> (\<exists>j. a = Handoff i j)"
      and st: "step a s = Some s'"
  shows "pool s' = pool s \<and> tasks s' = tasks s
     \<and> (spc (callers s' ! i) = Returned False \<or> spc (callers s' ! i) = AtCloseDone)"
proof -
  from v have sl: "inv_slots s" and len0: "chan_len (done_ch (pool s)) = 0"
    by (simp_all add: inv_all_def inv_once_def)
  from a show ?thesis
  proof
    assume "\<exists>k. a = Select i k"
    then obtain k where "a = Select i k" ..
    with st full len0 show ?thesis
      by (cases k)
         (auto simp: step_def select_commit_def set_spc_def chan_send_def chan_recv_def
            split: if_splits option.splits)
  next
    assume "\<exists>j. a = Handoff i j"
    then obtain j where "a = Handoff i j" ..
    with st handoff_never [OF sl, of i j] show ?thesis
      by (simp add: step_def split: if_splits)
  qed
qed

lemma free_slot_admits:
  assumes "crashed s = None" and "i < length (callers s)" and "spc (callers s ! i) = AtSelect"
      and "chan_len (work (pool s)) < chan_cap (work (pool s))"
  shows "\<exists>t. exec [Select i CaseWork, CallerStep i, CallerStep i] s = Some t
            \<and> spc (callers t ! i) = Returned True
            \<and> length (tasks t) = Suc (length (tasks s))"
  using assms
  by (simp add: step_def select_commit_def caller_step_def set_spc_def chan_send_def)

lemma closings_exec:
  "exec as s = Some t \<Longrightarrow>
     closings as s + (if chan_closed (done_ch (pool s)) then 1 else 0)
       = (if chan_closed (done_ch (pool t)) then 1 else 0)"
proof (induction as arbitrary: s)
  case Nil
  then show ?case by simp
next
  case (Cons a as)
  from Cons.prems obtain s1 where a: "step a s = Some s1" and r: "exec as s1 = Some t"
    by (auto split: option.splits)
  from Cons.IH [OF r] a step_closed_stays [OF a] show ?case
    by (auto split: if_splits)
qed

lemma exec_replicate_fixed:
  "step a s = Some t \<Longrightarrow> step a t = Some t \<Longrightarrow> exec (replicate (Suc n) a) s = Some t"
proof -
  assume s: "step a s = Some t" and t: "step a t = Some t"
  have "exec (replicate n a) t = Some t"
    by (induction n) (simp_all add: t)
  with s show ?thesis by simp
qed

lemma step_alive: "step a s = Some s' \<Longrightarrow> crashed s = None"
  by (auto simp: step_def split: if_splits)

lemma exec_exit_closes:
  "inv_all c sz s \<Longrightarrow> exec as s = Some t \<Longrightarrow> CallExit \<in> set as \<Longrightarrow>
     chan_closed (done_ch (pool t))"
proof (induction as arbitrary: s)
  case Nil
  then show ?case by simp
next
  case (Cons a as)
  from Cons.prems(2) obtain s1 where a: "step a s = Some s1" and r: "exec as s1 = Some t"
    by (auto split: option.splits)
  from a Cons.prems(1) have v1: "inv_all c sz s1" by (rule inv_all_step)
  show ?case
  proof (cases "a = CallExit")
    case True
    with a step_alive [OF a] closeDone_reachable [OF Cons.prems(1)]
    have "chan_closed (done_ch (pool s1))"
      by (auto simp: step_def Exit_def)
    with r show ?thesis by (rule exec_closed_stays)
  next
    case False
    with Cons.prems(3) have "CallExit \<in> set as" by simp
    with v1 r show ?thesis by (rule Cons.IH)
  qed
qed

lemma inv_zero_step:
  assumes "step a s = Some s'" and v: "inv_zero s"
  shows "inv_zero s'"
  using assms(1)
proof (cases rule: step_cases)
  case (Exit p)
  with v closeDone_cases [of "pool s" p] show ?thesis
    by (auto simp: inv_zero_def)
next
  case (Select i c)
  with v show ?thesis
    by (cases c)
       (auto simp: select_commit_def inv_zero_def set_spc_def chan_send_def chan_recv_def
          list_all_update split: if_splits option.splits)
next
  case (Handoff i j)
  with v show ?thesis
    by (auto simp: handoff_def inv_zero_def split: if_splits)
next
  case (Caller i)
  then have i: "i < length (callers s)"
    by (auto simp: caller_step_def split: if_splits)
  from v have "list_all (\<lambda>x. spc x = AtSelect \<or> spc x = AtCloseDone \<or> spc x = Returned False)
                 (callers s)"
    by (simp add: inv_zero_def)
  from list_all_nthD [OF this i]
  have "spc (callers s ! i) = AtSelect \<or> spc (callers s ! i) = AtCloseDone
          \<or> spc (callers s ! i) = Returned False" .
  with Caller v closeDone_cases [of "pool s"] show ?thesis
    by (auto simp: caller_step_def inv_zero_def set_spc_def list_all_update
          split: if_splits sum.splits)
next
  case (Task j)
  with v show ?thesis
    by (auto simp: task_step_def inv_zero_def split: if_splits)
next
  case (Body j r)
  with v show ?thesis
    by (auto simp: body_ends_def inv_zero_def split: if_splits)
qed (use v in \<open>auto simp: inv_zero_def\<close>)

lemma run_zero: "run c 0 F as = Some s \<Longrightarrow> inv_zero s"
proof (erule run_SomeD)
  fix p
  assume n: "New c 0 = Inr p" and x: "exec as (boot F p) = Some s"
  from New_InrD [OF n] have "inv_zero (boot F p)"
    by (simp add: inv_zero_def boot_def)
  with x show "inv_zero s"
    using exec_invariant [of inv_zero as "boot F p" s] by (blast intro: inv_zero_step)
qed

section \<open>The example schedules, evaluated\<close>

lemmas thread_defs =
  step_def Run_def RunWithContext_def RunWithContextAndIndex_def select_commit_def handoff_def
  caller_step_def task_step_def body_ends_def set_spc_def set_task_def chan_send_def
  chan_recv_def chan_close_def closeDone_def Exit_def recover_def Let_def

lemma exit_first_state_eq:
  "exit_first_state =
     \<lparr>pool =
       \<lparr>ctx = 0, work = \<lparr>chan_cap = 1, chan_len = 1, chan_closed = False\<rparr>,
       done_ch = \<lparr>chan_cap = 0, chan_len = 0, chan_closed = True\<rparr>,
       closeDone_once = True, running = 1, worked = 0, index = 0\<rparr>,
       fired = {}, callers = [\<lparr>fn = WrapPlain, spc = Returned True\<rparr>],
       tasks =
       [\<lparr>task = WrapPlain, gpc = AtCall, args = None, panicking = False\<rparr>],
       crashed = None\<rparr>"
  by (simp add: exit_first_state_def exit_first_schedule_def model_defs)

lemma run_exit_first: "run 0 1 {} exit_first_schedule = Some exit_first_state"
  by (simp add: exit_first_state_def exit_first_schedule_def model_defs)

lemma closed_full_state_eq:
  "closed_full_state =
     \<lparr>pool =
       \<lparr>ctx = 0, work = \<lparr>chan_cap = 1, chan_len = 1, chan_closed = False\<rparr>,
       done_ch = \<lparr>chan_cap = 0, chan_len = 0, chan_closed = True\<rparr>,
       closeDone_once = True, running = 1, worked = 0, index = 0\<rparr>,
       fired = {},
       callers =
       [\<lparr>fn = WrapPlain, spc = Returned True\<rparr>,
       \<lparr>fn = WrapPlain, spc = AtSelect\<rparr>],
       tasks =
       [\<lparr>task = WrapPlain, gpc = AtCall, args = None, panicking = False\<rparr>],
       crashed = None\<rparr>"
  by (simp add: closed_full_state_def closed_full_schedule_def model_defs)

lemma run_closed_full: "run 0 1 {} closed_full_schedule = Some closed_full_state"
  by (simp add: closed_full_state_def closed_full_schedule_def model_defs)

lemma reordered_state_eq:
  "reordered_state =
     \<lparr>pool =
       \<lparr>ctx = 0, work = \<lparr>chan_cap = 2, chan_len = 2, chan_closed = False\<rparr>,
       done_ch = \<lparr>chan_cap = 0, chan_len = 0, chan_closed = False\<rparr>,
       closeDone_once = False, running = 2, worked = 0, index = 2\<rparr>,
       fired = {},
       callers =
       [\<lparr>fn = Direct, spc = Returned True\<rparr>,
       \<lparr>fn = Direct, spc = Returned True\<rparr>],
       tasks =
       [\<lparr>task = Direct, gpc = InBody, args = Some (0, 2),
       panicking = False\<rparr>,
       \<lparr>task = Direct, gpc = InBody, args = Some (0, 1),
       panicking = False\<rparr>],
       crashed = None\<rparr>"
  by (simp add: reordered_state_def reordered_schedule_def model_defs)

lemma run_reordered: "run 0 2 {} reordered_schedule = Some reordered_state"
  by (simp add: reordered_state_def reordered_schedule_def model_defs)

lemma sequential_state_eq:
  "sequential_state =
     \<lparr>pool =
       \<lparr>ctx = 0, work = \<lparr>chan_cap = 5, chan_len = 5, chan_closed = False\<rparr>,
       done_ch = \<lparr>chan_cap = 0, chan_len = 0, chan_closed = False\<rparr>,
       closeDone_once = False, running = 5, worked = 0, index = 5\<rparr>,
       fired = {},
       callers =
       [\<lparr>fn = Direct, spc = Returned True\<rparr>,
       \<lparr>fn = Direct, spc = Returned True\<rparr>,
       \<lparr>fn = Direct, spc = Returned True\<rparr>,
       \<lparr>fn = Direct, spc = Returned True\<rparr>,
       \<lparr>fn = Direct, spc = Returned True\<rparr>],
       tasks =
       [\<lparr>task = Direct, gpc = InBody, args = Some (0, 1),
       panicking = False\<rparr>,
       \<lparr>task = Direct, gpc = InBody, args = Some (0, 2),
       panicking = False\<rparr>,
       \<lparr>task = Direct, gpc = InBody, args = Some (0, 3),
       panicking = False\<rparr>,
       \<lparr>task = Direct, gpc = InBody, args = Some (0, 4),
       panicking = False\<rparr>,
       \<lparr>task = Direct, gpc = InBody, args = Some (0, 5),
       panicking = False\<rparr>],
       crashed = None\<rparr>"
  by (simp add: sequential_state_def sequential_schedule_def model_defs)

lemma run_sequential: "run 0 5 {} sequential_schedule = Some sequential_state"
  by (simp add: sequential_state_def sequential_schedule_def model_defs)

lemma cancel_state_eq:
  "cancel_state =
     \<lparr>pool =
       \<lparr>ctx = 0, work = \<lparr>chan_cap = 1, chan_len = 0, chan_closed = False\<rparr>,
       done_ch = \<lparr>chan_cap = 0, chan_len = 0, chan_closed = False\<rparr>,
       closeDone_once = False, running = 0, worked = 0, index = 0\<rparr>,
       fired = {0}, callers = [\<lparr>fn = WrapPlain, spc = AtSelect\<rparr>], tasks = [],
       crashed = None\<rparr>"
  by (simp add: cancel_state_def cancel_schedule_def model_defs)

lemma run_cancel: "run 0 1 {} cancel_schedule = Some cancel_state"
  by (simp add: cancel_state_def cancel_schedule_def model_defs)

lemma one_call_state_eq:
  "one_call_state =
     \<lparr>pool =
       \<lparr>ctx = 0, work = \<lparr>chan_cap = 1, chan_len = 0, chan_closed = False\<rparr>,
       done_ch = \<lparr>chan_cap = 0, chan_len = 0, chan_closed = False\<rparr>,
       closeDone_once = False, running = 0, worked = 0, index = 0\<rparr>,
       fired = {}, callers = [\<lparr>fn = WrapPlain, spc = AtSelect\<rparr>], tasks = [],
       crashed = None\<rparr>"
  by (simp add: one_call_state_def one_call_schedule_def model_defs)

lemma run_one_call: "run 0 1 {} one_call_schedule = Some one_call_state"
  by (simp add: one_call_state_def one_call_schedule_def model_defs)

lemma overlap_state_eq:
  "overlap_state =
     \<lparr>pool =
       \<lparr>ctx = 0, work = \<lparr>chan_cap = 1, chan_len = 1, chan_closed = False\<rparr>,
       done_ch = \<lparr>chan_cap = 0, chan_len = 0, chan_closed = False\<rparr>,
       closeDone_once = False, running = 2, worked = 0, index = 1\<rparr>,
       fired = {},
       callers =
       [\<lparr>fn = WrapPlain, spc = Returned True\<rparr>,
       \<lparr>fn = WrapPlain, spc = AtGo\<rparr>],
       tasks =
       [\<lparr>task = WrapPlain, gpc = AtRunningSub, args = Some (0, 1),
       panicking = False\<rparr>],
       crashed = None\<rparr>"
  by (simp add: overlap_state_def overlap_schedule_def model_defs)

lemma run_overlap: "run 0 1 {} overlap_schedule = Some overlap_state"
  by (simp add: overlap_state_def overlap_schedule_def model_defs)

lemma zero_blocked_state_eq:
  "zero_blocked_state =
     \<lparr>pool =
       \<lparr>ctx = 0, work = \<lparr>chan_cap = 0, chan_len = 0, chan_closed = False\<rparr>,
       done_ch = \<lparr>chan_cap = 0, chan_len = 0, chan_closed = False\<rparr>,
       closeDone_once = False, running = 0, worked = 0, index = 0\<rparr>,
       fired = {}, callers = [\<lparr>fn = WrapPlain, spc = AtSelect\<rparr>], tasks = [],
       crashed = None\<rparr>"
  by (simp add: zero_blocked_state_def one_call_schedule_def model_defs)

lemma run_zero_blocked: "run 0 0 {} one_call_schedule = Some zero_blocked_state"
  by (simp add: zero_blocked_state_def one_call_schedule_def model_defs)

lemma zero_cancelled_state_eq:
  "zero_cancelled_state =
     \<lparr>pool =
       \<lparr>ctx = 0, work = \<lparr>chan_cap = 0, chan_len = 0, chan_closed = False\<rparr>,
       done_ch = \<lparr>chan_cap = 0, chan_len = 0, chan_closed = False\<rparr>,
       closeDone_once = False, running = 0, worked = 0, index = 0\<rparr>,
       fired = {0}, callers = [\<lparr>fn = WrapPlain, spc = AtSelect\<rparr>], tasks = [],
       crashed = None\<rparr>"
  by (simp add: zero_cancelled_state_def cancel_schedule_def model_defs)

lemma run_zero_cancelled: "run 0 0 {} cancel_schedule = Some zero_cancelled_state"
  by (simp add: zero_cancelled_state_def cancel_schedule_def model_defs)

lemma context_state_eq:
  "context_state =
     \<lparr>pool =
       \<lparr>ctx = 7, work = \<lparr>chan_cap = 1, chan_len = 1, chan_closed = False\<rparr>,
       done_ch = \<lparr>chan_cap = 0, chan_len = 0, chan_closed = False\<rparr>,
       closeDone_once = False, running = 1, worked = 0, index = 1\<rparr>,
       fired = {}, callers = [\<lparr>fn = WrapCtx, spc = Returned True\<rparr>],
       tasks =
       [\<lparr>task = WrapCtx, gpc = InBody, args = Some (7, 1),
       panicking = False\<rparr>],
       crashed = None\<rparr>"
  by (simp add: context_state_def context_schedule_def model_defs)

lemma run_context: "run 7 1 {} context_schedule = Some context_state"
  by (simp add: context_state_def context_schedule_def model_defs)

section \<open>Construction\<close>

text \<open>
  C9. For every negative capacity, \<^verbatim>\<open>New\<close> does not return a pool: the call faults at
  construction, with the runtime's panic of \<^verbatim>\<open>make\<close> (``makechan: size out of range''),
  and so no schedule of such a program ever has a pool to run on.
\<close>

theorem New_negative_capacity_faults:
  "sz < 0 \<Longrightarrow> New c sz = Inl MakechanSizeOutOfRange \<and> run c sz F as = None"
  by (simp add: New_def make_chan_def run_def)

theorem New_negative_capacity_faults_witness:
  "(- 1 :: int) < 0 \<and> New 7 (- 1) = Inl MakechanSizeOutOfRange
     \<and> run 7 (- 1) {} [CallRun, Select 0 CaseWork] = None"
  using New_negative_capacity_faults [of "- 1" 7 "{}" "[CallRun, Select 0 CaseWork]"] by simp

section \<open>Admission after the closed signal\<close>

text \<open>
  C1, as amended. Once the closed signal has fired it stays fired, and a submission call
  at its \<^verbatim>\<open>select\<close> never blocks: the case \<^verbatim>\<open><-p.done\<close> is ready, and taking it returns
  \<^verbatim>\<open>false\<close> and changes nothing but the call. When no slot is free (the buffer of
  \<^verbatim>\<open>work\<close> is full), every way the call can leave its \<^verbatim>\<open>select\<close> leaves the pool and the
  goroutines as they are and has the call return \<^verbatim>\<open>false\<close>, directly or through the
  cancellation case, whose \<^verbatim>\<open>closeDone\<close> is then a no-op. When a slot is free, the send
  case is ready as well and the \<^verbatim>\<open>select\<close> may take it: the call then reserves the slot,
  starts a goroutine and returns \<^verbatim>\<open>true\<close>.
\<close>

theorem closed_pool_rejects_unless_a_slot_is_free:
  assumes "run c sz F as = Some s" and "crashed s = None"
      and "chan_closed (done_ch (pool s))"
      and "i < length (callers s)" and "spc (callers s ! i) = AtSelect"
  shows "step (Select i CaseDone) s = Some (set_spc i (Returned False) s)
     \<and> (chan_len (work (pool s)) = chan_cap (work (pool s)) \<longrightarrow>
          (\<forall>a s'. (\<exists>k. a = Select i k) \<or> (\<exists>j. a = Handoff i j) \<longrightarrow> step a s = Some s' \<longrightarrow>
             pool s' = pool s \<and> tasks s' = tasks s
             \<and> (spc (callers s' ! i) = Returned False \<or> spc (callers s' ! i) = AtCloseDone)))
     \<and> (\<forall>bs t. exec bs s = Some t \<longrightarrow> chan_closed (done_ch (pool t)))
     \<and> (\<forall>bs t. exec bs s = Some t \<and> crashed t = None \<and> spc (callers t ! i) = AtCloseDone \<longrightarrow>
          step (CallerStep i) t = Some (set_spc i (Returned False) t))
     \<and> (chan_len (work (pool s)) < chan_cap (work (pool s)) \<longrightarrow>
          (\<exists>t. exec [Select i CaseWork, CallerStep i, CallerStep i] s = Some t
              \<and> spc (callers t ! i) = Returned True
              \<and> length (tasks t) = Suc (length (tasks s))))"
proof -
  from assms(1) have v: "inv_all c sz s" by (rule run_inv)
  have 1: "step (Select i CaseDone) s = Some (set_spc i (Returned False) s)"
    using v assms(2-5) by (rule select_done_ready)
  have 2: "chan_len (work (pool s)) = chan_cap (work (pool s)) \<longrightarrow>
          (\<forall>a s'. (\<exists>k. a = Select i k) \<or> (\<exists>j. a = Handoff i j) \<longrightarrow> step a s = Some s' \<longrightarrow>
             pool s' = pool s \<and> tasks s' = tasks s
             \<and> (spc (callers s' ! i) = Returned False \<or> spc (callers s' ! i) = AtCloseDone))"
    by (intro impI allI) (rule select_without_slot [OF v])
  have 3: "\<forall>bs t. exec bs s = Some t \<longrightarrow> chan_closed (done_ch (pool t))"
    using assms(3) by (blast intro: exec_closed_stays)
  have 4: "\<forall>bs t. exec bs s = Some t \<and> crashed t = None \<and> spc (callers t ! i) = AtCloseDone \<longrightarrow>
          step (CallerStep i) t = Some (set_spc i (Returned False) t)"
  proof (intro allI impI, elim conjE)
    fix bs t
    assume e: "exec bs s = Some t" and al: "crashed t = None"
      and at: "spc (callers t ! i) = AtCloseDone"
    from e v have vt: "inv_all c sz t" by (rule exec_inv)
    from e have i: "i < length (callers t)"
      using exec_callers [OF e] assms(4) by simp
    from e assms(3) have cl: "chan_closed (done_ch (pool t))" by (rule exec_closed_stays)
    with vt have "closeDone_once (pool t)"
      by (simp add: inv_all_def inv_once_def)
    with closeDone_at_caller [OF vt al i at]
    show "step (CallerStep i) t = Some (set_spc i (Returned False) t)"
      by simp
  qed
  have 5: "chan_len (work (pool s)) < chan_cap (work (pool s)) \<longrightarrow>
          (\<exists>t. exec [Select i CaseWork, CallerStep i, CallerStep i] s = Some t
              \<and> spc (callers t ! i) = Returned True
              \<and> length (tasks t) = Suc (length (tasks s)))"
    using assms(2,4,5) by (intro impI) (rule free_slot_admits)
  show ?thesis
    by (rule conjI [OF 1 conjI [OF 2 conjI [OF 3 conjI [OF 4 5]]]])
qed

text \<open>
  The theorem at work: capacity 1, the slot taken by a first task, then \<^verbatim>\<open>Exit\<close>, then a
  second call of \<^verbatim>\<open>Run\<close>. Its send case is not ready; it returns \<^verbatim>\<open>false\<close> by the closed case,
  or, once the context is cancelled, by the cancellation case.
\<close>

theorem closed_pool_rejects_unless_a_slot_is_free_witness:
  "run 0 1 {} closed_full_schedule = Some closed_full_state
   \<and> crashed closed_full_state = None
   \<and> chan_closed (done_ch (pool closed_full_state))
   \<and> 1 < length (callers closed_full_state)
   \<and> spc (callers closed_full_state ! 1) = AtSelect
   \<and> chan_len (work (pool closed_full_state)) = chan_cap (work (pool closed_full_state))
   \<and> step (Select 1 CaseDone) closed_full_state
        = Some (set_spc 1 (Returned False) closed_full_state)
   \<and> step (Select 1 CaseWork) closed_full_state = None
   \<and> map_option verdicts (exec [Cancel 0, Select 1 CaseCtxDone, CallerStep 1] closed_full_state)
        = Some [Returned True, Returned False]
   \<and> map_option tasks (exec [Cancel 0, Select 1 CaseCtxDone, CallerStep 1] closed_full_state)
        = Some (tasks closed_full_state)
   \<and> map_option verdicts (exec [TaskStep 0, BodyEnds 0 Returns, TaskStep 0, TaskStep 0] closed_full_state)
        = Some [Returned True, AtSelect]
   \<and> map_option (chan_len \<circ> work \<circ> pool)
        (exec [TaskStep 0, BodyEnds 0 Returns, TaskStep 0, TaskStep 0] closed_full_state) = Some 0
   \<and> map_option verdicts
        (exec [TaskStep 0, BodyEnds 0 Returns, TaskStep 0, TaskStep 0,
               Select 1 CaseWork, CallerStep 1, CallerStep 1] closed_full_state)
        = Some [Returned True, Returned True]"
proof -
  have h: "crashed closed_full_state = None" "chan_closed (done_ch (pool closed_full_state))"
      "1 < length (callers closed_full_state)" "spc (callers closed_full_state ! 1) = AtSelect"
    by (simp_all add: closed_full_state_eq)
  from closed_pool_rejects_unless_a_slot_is_free [OF run_closed_full h] h
  show ?thesis
    by (simp add: run_closed_full closed_full_state_eq thread_defs verdicts_def)
qed

text \<open>
  C1 as stated fails: capacity 1 and an idle pool, \<^verbatim>\<open>Exit\<close> first (the closed signal has
  fired after that one transition), then a call of \<^verbatim>\<open>Run\<close> whose \<^verbatim>\<open>select\<close> takes the send
  case, which is ready. The call returns \<^verbatim>\<open>true\<close> and a goroutine has been started.
\<close>

theorem closed_pool_admits_when_a_slot_is_free:
  "map_option (chan_closed \<circ> done_ch \<circ> pool) (run 0 1 {} (take 1 exit_first_schedule)) = Some True
   \<and> drop 1 exit_first_schedule = [CallRun, Select 0 CaseWork, CallerStep 0, CallerStep 0]
   \<and> map_option verdicts (run 0 1 {} exit_first_schedule) = Some [Returned True]
   \<and> map_option (length \<circ> tasks) (run 0 1 {} exit_first_schedule) = Some 1"
  by (simp add: exit_first_schedule_def model_defs verdicts_def)

section \<open>Sequence indices\<close>

text \<open>
  C2, as amended. The index is allocated by the goroutine itself, as an argument of the
  call of the task function, so before the task body runs; indices are handed out in the
  order in which the goroutines make that call, which need not be the order of
  submission. The \<open>k\<close>-th goroutine to make the call observes \<open>k\<close> (the first observes 1),
  the indices observed so far are exactly \<open>1, \<dots>, started\<close>, and they are pairwise
  distinct (fewer than \<open>2^64\<close> of them).
\<close>

theorem indices_are_assigned_in_start_order:
  assumes "run c sz F as = Some s"
  shows "index (pool s) = word_of_nat (started s)
     \<and> set (observed (tasks s)) = word_of_nat ` {1..started s}
     \<and> (started s < 2 ^ 64 \<longrightarrow> distinct (observed (tasks s)))
     \<and> (\<forall>g \<in> set (tasks s). gpc g \<noteq> AtCall \<longrightarrow> (\<exists>i. args g = Some (c, i)))
     \<and> (\<forall>j < length (tasks s). gpc (tasks s ! j) = AtCall \<and> crashed s = None \<longrightarrow>
           (\<exists>s'. step (TaskStep j) s = Some s' \<and> gpc (tasks s' ! j) = InBody
                \<and> args (tasks s' ! j) = Some (c, word_of_nat (Suc (started s)))
                \<and> started s' = Suc (started s)))"
proof -
  from assms have v: "inv_all c sz s" by (rule run_inv)
  then have i: "index (pool s) = word_of_nat (started s)"
      and o: "set (observed (tasks s)) = word_of_nat ` {1..started s}"
      and t: "list_all (task_ok c) (tasks s)"
      and cx: "ctx (pool s) = c"
    by (auto simp: inv_all_def inv_index_def)
  have d: "distinct (observed (tasks s))" if "started s < 2 ^ 64"
  proof (rule card_distinct)
    have "card (set (observed (tasks s))) = card {1..started s}"
      unfolding o using that by (intro card_image word_of_nat_inj_on) simp
    then show "card (set (observed (tasks s))) = length (observed (tasks s))"
      by (simp add: started_def)
  qed
  have b: "\<exists>i. args g = Some (c, i)" if "g \<in> set (tasks s)" "gpc g \<noteq> AtCall" for g
  proof -
    from t that(1) have "task_ok c g" by (simp add: list_all_iff)
    with that(2) show ?thesis by (cases "args g") (auto simp: task_ok_def)
  qed
  have e: "\<exists>s'. step (TaskStep j) s = Some s' \<and> gpc (tasks s' ! j) = InBody
                \<and> args (tasks s' ! j) = Some (c, word_of_nat (Suc (started s)))
                \<and> started s' = Suc (started s)"
    if j: "j < length (tasks s)" and at: "gpc (tasks s ! j) = AtCall" and al: "crashed s = None"
    for j
  proof -
    let ?g = "(tasks s ! j)\<lparr>gpc := InBody, args := Some (ctx (pool s), index (pool s) + 1)\<rparr>"
    from t j have "task_ok c (tasks s ! j)" by (rule list_all_nthD)
    with at have none: "args (tasks s ! j) = None" by (simp add: task_ok_def)
    have "length (observed ((tasks s)[j := ?g])) = Suc (length (observed (tasks s)))"
      using observed_update_new [OF j none, of ?g "ctx (pool s)" "index (pool s) + 1"] by simp
    then show ?thesis
      using index_call_enabled [OF j at al] j i cx
      by (simp add: set_task_def started_def add.commute)
  qed
  have 3: "started s < 2 ^ 64 \<longrightarrow> distinct (observed (tasks s))"
    using d by blast
  have 4: "\<forall>g \<in> set (tasks s). gpc g \<noteq> AtCall \<longrightarrow> (\<exists>i. args g = Some (c, i))"
    using b by blast
  have 5: "\<forall>j < length (tasks s). gpc (tasks s ! j) = AtCall \<and> crashed s = None \<longrightarrow>
           (\<exists>s'. step (TaskStep j) s = Some s' \<and> gpc (tasks s' ! j) = InBody
                \<and> args (tasks s' ! j) = Some (c, word_of_nat (Suc (started s)))
                \<and> started s' = Suc (started s))"
    using e by blast
  show ?thesis
    by (rule conjI [OF i conjI [OF o conjI [OF 3 conjI [OF 4 5]]]])
qed

text \<open>
  The theorem at work: capacity 5, five calls made one after the other by one caller,
  each goroutine making its call of \<^verbatim>\<open>f\<close> before the next submission: the tasks observe
  1, 2, 3, 4, 5 in that order. And on a pool whose first goroutine has not made its call
  yet, that call observes index 1.
\<close>

theorem indices_are_assigned_in_start_order_witness:
  "run 0 5 {} sequential_schedule = Some sequential_state
   \<and> started sequential_state < 2 ^ 64
   \<and> map gpc (tasks sequential_state) = [InBody, InBody, InBody, InBody, InBody]
   \<and> index (pool sequential_state) = 5
   \<and> observed (tasks sequential_state) = [1, 2, 3, 4, 5]
   \<and> distinct (observed (tasks sequential_state))
   \<and> run 0 1 {} exit_first_schedule = Some exit_first_state
   \<and> gpc (tasks exit_first_state ! 0) = AtCall \<and> crashed exit_first_state = None
   \<and> map_option (observed \<circ> tasks) (step (TaskStep 0) exit_first_state) = Some [1]"
proof -
  have a: "started sequential_state < 2 ^ 64"
    by (simp add: sequential_state_eq started_def)
  from indices_are_assigned_in_start_order [OF run_sequential] a
  have d: "distinct (observed (tasks sequential_state))" by blast
  from indices_are_assigned_in_start_order [OF run_exit_first]
  have i: "index (pool exit_first_state) = word_of_nat (started exit_first_state)" by blast
  from d i a show ?thesis
    by (simp add: run_sequential run_exit_first sequential_state_eq exit_first_state_eq
          thread_defs)
qed

text \<open>
  C2 as stated fails: capacity 2, two calls made one after the other, both returned
  \<^verbatim>\<open>true\<close>; the goroutine of the second call is scheduled first. The task submitted first
  observes index 2 and the task submitted second observes index 1.
\<close>

theorem indices_do_not_follow_submission_order:
  "map_option verdicts (run 0 2 {} reordered_schedule) = Some [Returned True, Returned True]
   \<and> map_option (observed \<circ> tasks) (run 0 2 {} reordered_schedule) = Some [2, 1]"
  by (simp add: run_reordered reordered_state_eq verdicts_def)

section \<open>A task body that panics\<close>

text \<open>
  C3. The code at the input that breaks the claim: capacity 1 and one call of \<^verbatim>\<open>Run\<close> whose
  task body panics. The call has returned \<^verbatim>\<open>true\<close>. The deferred \<^verbatim>\<open>recover()\<close> does not stop
  the panic (the goroutine is still panicking after it); the clean-up closure then
  releases the slot, decrements \<^verbatim>\<open>running\<close> and increments \<^verbatim>\<open>worked\<close>, and the process is
  alive up to there. At the end of the goroutine the panic terminates the process: no
  further transition exists, not even a new submission.
\<close>

theorem panicking_task_terminates_the_process:
  "map_option verdicts (run 0 1 {} panic_schedule) = Some [Returned True]
   \<and> map_option (map gpc \<circ> tasks) (run 0 1 {} (take 6 panic_schedule)) = Some [AtRecover]
   \<and> map_option (map panicking \<circ> tasks) (run 0 1 {} (take 6 panic_schedule)) = Some [True]
   \<and> map_option (map gpc \<circ> tasks) (run 0 1 {} (take 7 panic_schedule)) = Some [AtWorkRecv]
   \<and> map_option (map panicking \<circ> tasks) (run 0 1 {} (take 7 panic_schedule)) = Some [True]
   \<and> map_option crashed (run 0 1 {} (take 10 panic_schedule)) = Some None
   \<and> map_option (Worked \<circ> pool) (run 0 1 {} (take 10 panic_schedule)) = Some 1
   \<and> map_option (Running \<circ> pool) (run 0 1 {} (take 10 panic_schedule)) = Some 0
   \<and> map_option (chan_len \<circ> work \<circ> pool) (run 0 1 {} (take 10 panic_schedule)) = Some 0
   \<and> map_option crashed (run 0 1 {} panic_schedule) = Some (Some TaskPanic)
   \<and> run 0 1 {} (panic_schedule @ [CallRun]) = None"
  by (simp add: panic_schedule_def model_defs verdicts_def Worked_def Running_def)

section \<open>Cancellation observed by a submission\<close>

text \<open>
  C4. A submission call at its \<^verbatim>\<open>select\<close>, the pool's context cancelled: the cancellation
  case is ready, and taking it changes nothing but the call. When the call then runs
  \<^verbatim>\<open>p.closeDone()\<close>, whatever the other threads have done in between, it does not fault
  and returns \<^verbatim>\<open>false\<close>; afterwards the closed signal has fired; the pool is unchanged if
  the signal had fired already and has only \<^verbatim>\<open>done\<close> closed otherwise, so no slot is
  reserved and \<^verbatim>\<open>running\<close>, \<^verbatim>\<open>worked\<close> and \<^verbatim>\<open>index\<close> are untouched; no goroutine is
  started; and in the whole run \<^verbatim>\<open>done\<close> has gone from open to closed exactly once.
\<close>

theorem cancellation_closes_once_and_rejects:
  assumes "run c sz F as = Some s" and "crashed s = None"
      and "i < length (callers s)" and "spc (callers s ! i) = AtSelect"
      and "c \<in> fired s"
  shows "step (Select i CaseCtxDone) s = Some (set_spc i AtCloseDone s)
     \<and> (\<forall>bs t. exec bs (set_spc i AtCloseDone s) = Some t \<and> crashed t = None
                \<and> spc (callers t ! i) = AtCloseDone \<longrightarrow>
          (\<exists>t'. step (CallerStep i) t = Some t' \<and> crashed t' = None
               \<and> spc (callers t' ! i) = Returned False
               \<and> chan_closed (done_ch (pool t'))
               \<and> pool t' = (if chan_closed (done_ch (pool t)) then pool t
                             else (pool t)\<lparr>done_ch := (done_ch (pool t))\<lparr>chan_closed := True\<rparr>,
                                          closeDone_once := True\<rparr>)
               \<and> work (pool t') = work (pool t) \<and> running (pool t') = running (pool t)
               \<and> worked (pool t') = worked (pool t) \<and> index (pool t') = index (pool t)
               \<and> tasks t' = tasks t
               \<and> run_closings c sz F (as @ Select i CaseCtxDone # bs @ [CallerStep i]) = 1))"
proof -
  from assms(1) have v: "inv_all c sz s" by (rule run_inv)
  then have cx: "ctx (pool s) = c" by (simp add: inv_all_def)
  have 1: "step (Select i CaseCtxDone) s = Some (set_spc i AtCloseDone s)"
    using assms(2-5) cx by (simp add: step_def select_commit_def)
  have 2: "\<exists>t'. step (CallerStep i) t = Some t' \<and> crashed t' = None
               \<and> spc (callers t' ! i) = Returned False
               \<and> chan_closed (done_ch (pool t'))
               \<and> pool t' = (if chan_closed (done_ch (pool t)) then pool t
                             else (pool t)\<lparr>done_ch := (done_ch (pool t))\<lparr>chan_closed := True\<rparr>,
                                          closeDone_once := True\<rparr>)
               \<and> work (pool t') = work (pool t) \<and> running (pool t') = running (pool t)
               \<and> worked (pool t') = worked (pool t) \<and> index (pool t') = index (pool t)
               \<and> tasks t' = tasks t
               \<and> run_closings c sz F (as @ Select i CaseCtxDone # bs @ [CallerStep i]) = 1"
    if e: "exec bs (set_spc i AtCloseDone s) = Some t" and al: "crashed t = None"
      and at: "spc (callers t ! i) = AtCloseDone"
    for bs t
  proof -
    let ?s1 = "set_spc i AtCloseDone s"
    let ?p = "if chan_closed (done_ch (pool t)) then pool t
              else (pool t)\<lparr>done_ch := (done_ch (pool t))\<lparr>chan_closed := True\<rparr>,
                           closeDone_once := True\<rparr>"
    let ?t' = "set_spc i (Returned False) (t\<lparr>pool := ?p\<rparr>)"
    from 1 v have v1: "inv_all c sz ?s1" by (rule inv_all_step)
    with e have vt: "inv_all c sz t" by (rule exec_inv)
    then have eq: "chan_closed (done_ch (pool t)) = closeDone_once (pool t)"
      by (simp add: inv_all_def inv_once_def)
    have "length (callers s) \<le> length (callers t)"
      using exec_callers [OF e] by (simp add: set_spc_def)
    with assms(3) have i: "i < length (callers t)" by simp
    have st: "step (CallerStep i) t = Some ?t'"
      using closeDone_at_caller [OF vt al i at] eq by simp
    have whole: "run c sz F (as @ Select i CaseCtxDone # bs @ [CallerStep i]) = Some ?t'"
      using run_append [OF assms(1), of "Select i CaseCtxDone # bs @ [CallerStep i]"] 1 e st
      by (simp add: exec_append)
    have cl: "chan_closed (done_ch (pool ?t'))"
      by (simp add: set_spc_def)
    have "run_closings c sz F (as @ Select i CaseCtxDone # bs @ [CallerStep i]) = 1"
    proof (rule run_SomeD [OF whole])
      fix p
      assume n: "New c sz = Inr p"
        and x: "exec (as @ Select i CaseCtxDone # bs @ [CallerStep i]) (boot F p) = Some ?t'"
      from New_InrD [OF n] have "\<not> chan_closed (done_ch (pool (boot F p)))"
        by (simp add: boot_def)
      with closings_exec [OF x] n cl show ?thesis
        by (simp add: run_closings_def)
    qed
    with st al i show ?thesis
      by (intro exI [of _ ?t']) (simp add: set_spc_def)
  qed
  from 1 2 show ?thesis by blast
qed

text \<open>
  The theorem at work: a call of \<^verbatim>\<open>Run\<close>, the context cancelled, the call takes the
  cancellation case, and a concurrent \<^verbatim>\<open>Exit\<close> closes \<^verbatim>\<open>done\<close> before the call runs its own
  \<^verbatim>\<open>closeDone\<close>.
\<close>

theorem cancellation_closes_once_and_rejects_witness:
  "run 0 1 {} cancel_schedule = Some cancel_state
   \<and> crashed cancel_state = None
   \<and> 0 < length (callers cancel_state)
   \<and> spc (callers cancel_state ! 0) = AtSelect
   \<and> 0 \<in> fired cancel_state
   \<and> step (Select 0 CaseCtxDone) cancel_state = Some (set_spc 0 AtCloseDone cancel_state)
   \<and> map_option (spc \<circ> hd \<circ> callers) (exec [CallExit] (set_spc 0 AtCloseDone cancel_state))
        = Some AtCloseDone
   \<and> map_option crashed (exec [CallExit] (set_spc 0 AtCloseDone cancel_state)) = Some None
   \<and> map_option verdicts (exec [CallExit, CallerStep 0] (set_spc 0 AtCloseDone cancel_state))
        = Some [Returned False]
   \<and> map_option (chan_closed \<circ> done_ch \<circ> pool)
        (exec [CallExit, CallerStep 0] (set_spc 0 AtCloseDone cancel_state)) = Some True
   \<and> map_option (work \<circ> pool) (exec [CallExit, CallerStep 0] (set_spc 0 AtCloseDone cancel_state))
        = Some (work (pool cancel_state))
   \<and> map_option tasks (exec [CallExit, CallerStep 0] (set_spc 0 AtCloseDone cancel_state))
        = Some []
   \<and> run_closings 0 1 {} (cancel_schedule @ Select 0 CaseCtxDone # [CallExit] @ [CallerStep 0]) = 1"
proof -
  have h: "crashed cancel_state = None" "0 < length (callers cancel_state)"
      "spc (callers cancel_state ! 0) = AtSelect" "0 \<in> fired cancel_state"
    by (simp_all add: cancel_state_eq)
  let ?t = "the (exec [CallExit] (set_spc 0 AtCloseDone cancel_state))"
  have e: "exec [CallExit] (set_spc 0 AtCloseDone cancel_state) = Some ?t \<and> crashed ?t = None
             \<and> spc (callers ?t ! 0) = AtCloseDone"
    by (simp add: cancel_state_eq thread_defs)
  from cancellation_closes_once_and_rejects [OF run_cancel h] e
  have c: "run_closings 0 1 {} (cancel_schedule @ Select 0 CaseCtxDone # [CallExit] @ [CallerStep 0]) = 1"
    by blast
  from h c show ?thesis
    by (simp add: run_cancel cancel_state_eq thread_defs verdicts_def)
qed

section \<open>Explicit shutdown\<close>

text \<open>
  C5. In every state of every run, whatever the interleaving of callers of \<^verbatim>\<open>Exit\<close> and of
  submissions that observe cancellation: no \<^verbatim>\<open>close\<close> of the closed channel has happened,
  and \<^verbatim>\<open>done\<close> has gone from open to closed once if it is closed and never otherwise; it
  is closed as soon as one call of \<^verbatim>\<open>Exit\<close> has been made.
  \<^verbatim>\<open>Exit\<close> does not fault; after it the closed signal has fired; it changes nothing if
  the signal had fired already and only closes \<^verbatim>\<open>done\<close> otherwise; calling it again is a
  no-op, so any number of calls in a row leave the state that one call leaves.
\<close>

theorem Exit_is_idempotent:
  assumes "run c sz F as = Some s"
  shows "crashed s \<noteq> Some CloseOfClosedChannel
     \<and> run_closings c sz F as = (if chan_closed (done_ch (pool s)) then 1 else 0)
     \<and> (CallExit \<in> set as \<longrightarrow> chan_closed (done_ch (pool s)))
     \<and> (\<exists>p. Exit (pool s) = Inr p \<and> Exit p = Inr p
            \<and> chan_closed (done_ch p) \<and> closeDone_once p
            \<and> p = (if chan_closed (done_ch (pool s)) then pool s
                   else (pool s)\<lparr>done_ch := (done_ch (pool s))\<lparr>chan_closed := True\<rparr>,
                                closeDone_once := True\<rparr>)
            \<and> (crashed s = None \<longrightarrow>
                 (\<forall>n. exec (replicate (Suc n) CallExit) s = Some (s\<lparr>pool := p\<rparr>))
                 \<and> closings [CallExit, CallExit] s
                     = (if chan_closed (done_ch (pool s)) then 0 else 1)))"
proof -
  from assms have v: "inv_all c sz s" by (rule run_inv)
  then have e: "chan_closed (done_ch (pool s)) = closeDone_once (pool s)"
      and 1: "crashed s \<noteq> Some CloseOfClosedChannel"
    by (simp_all add: inv_all_def inv_once_def)
  have 2: "run_closings c sz F as = (if chan_closed (done_ch (pool s)) then 1 else 0)"
  proof (rule run_SomeD [OF assms])
    fix p
    assume n: "New c sz = Inr p" and x: "exec as (boot F p) = Some s"
    from New_InrD [OF n] have "\<not> chan_closed (done_ch (pool (boot F p)))"
      by (simp add: boot_def)
    with closings_exec [OF x] n show ?thesis
      by (simp add: run_closings_def)
  qed
  let ?p = "if chan_closed (done_ch (pool s)) then pool s
            else (pool s)\<lparr>done_ch := (done_ch (pool s))\<lparr>chan_closed := True\<rparr>,
                         closeDone_once := True\<rparr>"
  have a: "Exit (pool s) = Inr ?p"
    unfolding Exit_def by (rule closeDone_reachable [OF v])
  have c: "chan_closed (done_ch ?p)" and o: "closeDone_once ?p"
    using e by auto
  have b: "Exit ?p = Inr ?p"
    unfolding Exit_def using o by (rule closeDone_closed)
  have d: "(\<forall>n. exec (replicate (Suc n) CallExit) s = Some (s\<lparr>pool := ?p\<rparr>))
           \<and> closings [CallExit, CallExit] s = (if chan_closed (done_ch (pool s)) then 0 else 1)"
    if al: "crashed s = None"
  proof -
    have s1: "step CallExit s = Some (s\<lparr>pool := ?p\<rparr>)"
      using a al by (simp add: step_def)
    have s2: "step CallExit (s\<lparr>pool := ?p\<rparr>) = Some (s\<lparr>pool := ?p\<rparr>)"
      using b al by (simp add: step_def)
    have "\<forall>n. exec (replicate (Suc n) CallExit) s = Some (s\<lparr>pool := ?p\<rparr>)"
      using exec_replicate_fixed [OF s1 s2] by blast
    moreover have "closings [CallExit, CallExit] s
                     = (if chan_closed (done_ch (pool s)) then 0 else 1)"
      using s1 s2 c by simp
    ultimately show ?thesis ..
  qed
  have 3: "\<exists>p. Exit (pool s) = Inr p \<and> Exit p = Inr p
            \<and> chan_closed (done_ch p) \<and> closeDone_once p
            \<and> p = (if chan_closed (done_ch (pool s)) then pool s
                   else (pool s)\<lparr>done_ch := (done_ch (pool s))\<lparr>chan_closed := True\<rparr>,
                                closeDone_once := True\<rparr>)
            \<and> (crashed s = None \<longrightarrow>
                 (\<forall>n. exec (replicate (Suc n) CallExit) s = Some (s\<lparr>pool := p\<rparr>))
                 \<and> closings [CallExit, CallExit] s
                     = (if chan_closed (done_ch (pool s)) then 0 else 1))"
  proof (rule exI [of _ ?p])
    have d': "crashed s = None \<longrightarrow>
                 (\<forall>n. exec (replicate (Suc n) CallExit) s = Some (s\<lparr>pool := ?p\<rparr>))
                 \<and> closings [CallExit, CallExit] s
                     = (if chan_closed (done_ch (pool s)) then 0 else 1)"
      using d by blast
    show "Exit (pool s) = Inr ?p \<and> Exit ?p = Inr ?p
            \<and> chan_closed (done_ch ?p) \<and> closeDone_once ?p
            \<and> ?p = (if chan_closed (done_ch (pool s)) then pool s
                   else (pool s)\<lparr>done_ch := (done_ch (pool s))\<lparr>chan_closed := True\<rparr>,
                                closeDone_once := True\<rparr>)
            \<and> (crashed s = None \<longrightarrow>
                 (\<forall>n. exec (replicate (Suc n) CallExit) s = Some (s\<lparr>pool := ?p\<rparr>))
                 \<and> closings [CallExit, CallExit] s
                     = (if chan_closed (done_ch (pool s)) then 0 else 1))"
      by (rule conjI [OF a conjI [OF b conjI [OF c conjI [OF o conjI [OF refl d']]]]])
  qed
  have 4: "CallExit \<in> set as \<longrightarrow> chan_closed (done_ch (pool s))"
  proof
    assume x: "CallExit \<in> set as"
    show "chan_closed (done_ch (pool s))"
    proof (rule run_SomeD [OF assms])
      fix p
      assume n: "New c sz = Inr p" and e: "exec as (boot F p) = Some s"
      from inv_all_boot [OF n] e x show ?thesis by (rule exec_exit_closes)
    qed
  qed
  show ?thesis
    by (rule conjI [OF 1 conjI [OF 2 conjI [OF 4 3]]])
qed

text \<open>The theorem at work: a pool with one call waiting, and \<^verbatim>\<open>Exit\<close> called three times.\<close>

theorem Exit_is_idempotent_witness:
  "run 0 1 {} one_call_schedule = Some one_call_state
   \<and> crashed one_call_state = None
   \<and> run_closings 0 1 {} one_call_schedule = 0
   \<and> map_option (chan_closed \<circ> done_ch \<circ> pool) (exec [CallExit] one_call_state) = Some True
   \<and> exec [CallExit, CallExit, CallExit] one_call_state = exec [CallExit] one_call_state
   \<and> map_option crashed (exec [CallExit, CallExit, CallExit] one_call_state) = Some None
   \<and> closings [CallExit, CallExit] one_call_state = 1
   \<and> CallExit \<in> set (one_call_schedule @ [CallExit, CallExit, CallExit])
   \<and> run_closings 0 1 {} (one_call_schedule @ [CallExit, CallExit, CallExit]) = 1"
proof -
  have h: "crashed one_call_state = None"
    by (simp add: one_call_state_eq)
  from Exit_is_idempotent [OF run_one_call]
  have c: "run_closings 0 1 {} one_call_schedule
             = (if chan_closed (done_ch (pool one_call_state)) then 1 else 0)"
    by blast
  from h c show ?thesis
    by (simp add: one_call_state_eq one_call_schedule_def model_defs run_closings_def)
qed

section \<open>The running counter\<close>

text \<open>
  C6, as amended. \<^verbatim>\<open>Running\<close> is the number of admitted tasks whose \<^verbatim>\<open>running.Add(-1)\<close>
  has not been executed yet. Because a goroutine releases its slot (\<^verbatim>\<open><-p.work\<close>) before
  it decrements, that number is bounded by the capacity plus the number of goroutines
  that stand between the release and the decrement, not by the capacity: it is never
  negative, and at most \<open>size\<close> plus the goroutines at \<^verbatim>\<open>running.Add(-1)\<close> (read as a
  signed 32-bit value while fewer than \<open>2^31\<close> are counted). The counter is incremented
  only by a submission that stands right after its successful send on \<^verbatim>\<open>work\<close>, and
  decremented only by a goroutine whose task body has ended and whose slot is released.
\<close>

theorem running_counts_admissions_not_yet_decremented:
  assumes "run c sz F as = Some s"
  shows "Running (pool s) = word_of_nat (live s)
     \<and> live s + how_many (\<lambda>x. spc x = AtRunningAdd) (callers s)
         = chan_len (work (pool s)) + how_many (\<lambda>g. gpc g = AtRunningSub) (tasks s)
     \<and> int (chan_len (work (pool s))) \<le> sz
     \<and> (live s < 2 ^ 31 \<longrightarrow>
          0 \<le> sint (Running (pool s))
          \<and> sint (Running (pool s)) \<le> sz + int (how_many (\<lambda>g. gpc g = AtRunningSub) (tasks s)))
     \<and> (\<forall>a s'. step a s = Some s' \<longrightarrow>
           (Running (pool s') = Running (pool s) + 1
              \<and> (\<exists>i. a = CallerStep i \<and> spc (callers s ! i) = AtRunningAdd))
           \<or> (Running (pool s') = Running (pool s) - 1
              \<and> (\<exists>j. a = TaskStep j \<and> gpc (tasks s ! j) = AtRunningSub))
           \<or> Running (pool s') = Running (pool s))"
proof -
  from assms have v: "inv_all c sz s" by (rule run_inv)
  then have r: "running (pool s) = word_of_nat (live s)"
    by (simp add: inv_all_def inv_running_def)
  from v have len: "chan_len (work (pool s)) = slots_held s" "chan_len (work (pool s)) \<le> nat sz" "0 \<le> sz"
    by (simp_all add: inv_all_def inv_slots_def)
  have split: "live s + how_many (\<lambda>x. spc x = AtRunningAdd) (callers s)
         = chan_len (work (pool s)) + how_many (\<lambda>g. gpc g = AtRunningSub) (tasks s)"
    using live_split [of s] len by simp
  have bound: "0 \<le> sint (running (pool s))
          \<and> sint (running (pool s)) \<le> sz + int (how_many (\<lambda>g. gpc g = AtRunningSub) (tasks s))"
    if small: "live s < 2 ^ 31"
  proof -
    have "sint (running (pool s)) = int (live s)"
      unfolding r using small by (intro sint_word_of_nat) simp
    moreover have "int (live s) \<le> sz + int (how_many (\<lambda>g. gpc g = AtRunningSub) (tasks s))"
      using split len by linarith
    ultimately show ?thesis by simp
  qed
  show ?thesis
    using r split len bound step_running [of _ s] by (simp add: Running_def)
qed

text \<open>
  The theorem at work, on the schedule of the counterexample: two admissions are counted,
  one slot is occupied, and one goroutine stands between its release and its decrement.
\<close>

theorem running_counts_admissions_not_yet_decremented_witness:
  "run 0 1 {} overlap_schedule = Some overlap_state
   \<and> live overlap_state = 2 \<and> live overlap_state < 2 ^ 31
   \<and> chan_len (work (pool overlap_state)) = 1
   \<and> how_many (\<lambda>g. gpc g = AtRunningSub) (tasks overlap_state) = 1
   \<and> sint (Running (pool overlap_state)) = 2
   \<and> spc (callers overlap_state ! 1) = AtGo
   \<and> gpc (tasks overlap_state ! 0) = AtRunningSub
   \<and> map_option (Running \<circ> pool) (step (TaskStep 0) overlap_state) = Some 1"
proof -
  from running_counts_admissions_not_yet_decremented [OF run_overlap]
  have "Running (pool overlap_state) = word_of_nat (live overlap_state)" by blast
  then show ?thesis
    by (simp add: run_overlap overlap_state_eq live_def Running_def thread_defs)
qed

text \<open>
  C6 as stated fails: capacity 1. The first task's body has returned and its goroutine has
  released the slot but not yet decremented \<^verbatim>\<open>running\<close>; a second call reserves the free
  slot and increments. \<^verbatim>\<open>Running\<close> is 2.
\<close>

theorem running_exceeds_capacity:
  "map_option (chan_cap \<circ> work \<circ> pool) (run 0 1 {} overlap_schedule) = Some 1
   \<and> map_option (sint \<circ> Running \<circ> pool) (run 0 1 {} overlap_schedule) = Some 2"
  by (simp add: run_overlap overlap_state_eq Running_def)

section \<open>The worked counter\<close>

text \<open>
  C7. The code at an input that breaks the claim: capacity 2 and two calls of \<^verbatim>\<open>Run\<close>, both
  returned \<^verbatim>\<open>true\<close>. The first task's body returns; before its goroutine runs its
  clean-up, the second task's body panics and its goroutine runs the deferred calls: the
  deferred \<^verbatim>\<open>recover()\<close> does not stop the panic, the clean-up closure releases the slot,
  decrements \<^verbatim>\<open>running\<close> and increments \<^verbatim>\<open>worked\<close>, and at the end of the goroutine the
  panic terminates the process. Both task bodies have ended, two submissions were
  accepted, and \<^verbatim>\<open>Worked\<close> is 1 and \<^verbatim>\<open>Running\<close> is 1 for ever: the first goroutine never
  gets to its \<^verbatim>\<open>running.Add(-1)\<close> and \<^verbatim>\<open>worked.Add(1)\<close>.
\<close>

theorem panic_leaves_worked_short_of_accepted:
  "map_option verdicts (run 0 2 {} panic_first_schedule) = Some [Returned True, Returned True]
   \<and> map_option accepted (run 0 2 {} panic_first_schedule) = Some 2
   \<and> map_option (map gpc \<circ> tasks) (run 0 2 {} panic_first_schedule) = Some [AtRecover, AtEnd]
   \<and> map_option (map panicking \<circ> tasks) (run 0 2 {} panic_first_schedule) = Some [False, True]
   \<and> map_option (Worked \<circ> pool) (run 0 2 {} panic_first_schedule) = Some 1
   \<and> map_option (Running \<circ> pool) (run 0 2 {} panic_first_schedule) = Some 1
   \<and> map_option crashed (run 0 2 {} panic_first_schedule) = Some (Some TaskPanic)
   \<and> run 0 2 {} (panic_first_schedule @ [TaskStep 0]) = None"
  by (simp add: panic_first_schedule_def model_defs verdicts_def accepted_def Worked_def
        Running_def)

section \<open>Capacity 0\<close>

text \<open>
  C8. On a pool constructed with capacity 0, in every state of every run: no goroutine
  exists, no call has returned \<^verbatim>\<open>true\<close> or is on its way to a dispatch, and the send case
  of no \<^verbatim>\<open>select\<close> is ready, nor is any hand-off possible. While neither the context is
  cancelled nor the closed signal has fired, no case of any \<^verbatim>\<open>select\<close> is ready: the call
  blocks. Once one of them has happened, the matching case is ready and leads to
  \<^verbatim>\<open>false\<close>.
\<close>

theorem zero_capacity_never_admits:
  assumes "run c 0 F as = Some s"
  shows "tasks s = [] \<and> accepted s = 0
     \<and> (\<forall>x \<in> set (callers s). spc x = AtSelect \<or> spc x = AtCloseDone \<or> spc x = Returned False)
     \<and> (\<forall>i j. step (Select i CaseWork) s = None \<and> step (Handoff i j) s = None)
     \<and> (c \<notin> fired s \<and> \<not> chan_closed (done_ch (pool s)) \<longrightarrow> (\<forall>i k. step (Select i k) s = None))
     \<and> (\<forall>i < length (callers s). spc (callers s ! i) = AtSelect \<and> crashed s = None \<longrightarrow>
           (c \<in> fired s \<longrightarrow> step (Select i CaseCtxDone) s = Some (set_spc i AtCloseDone s))
           \<and> (chan_closed (done_ch (pool s)) \<longrightarrow>
                step (Select i CaseDone) s = Some (set_spc i (Returned False) s)))"
proof -
  from assms have z: "inv_zero s" by (rule run_zero)
  from assms have v: "inv_all c 0 s" by (rule run_inv)
  then have cx: "ctx (pool s) = c" and len0: "chan_len (done_ch (pool s)) = 0"
    by (simp_all add: inv_all_def inv_once_def)
  from z have 1: "tasks s = []" and cap: "chan_cap (work (pool s)) = 0"
    and pcs: "\<forall>x \<in> set (callers s). spc x = AtSelect \<or> spc x = AtCloseDone \<or> spc x = Returned False"
    by (simp_all add: inv_zero_def list_all_iff)
  have 2: "accepted s = 0"
    unfolding accepted_def using pcs by (intro how_many_none) auto
  have 4: "\<forall>i j. step (Select i CaseWork) s = None \<and> step (Handoff i j) s = None"
    using cap 1 by (simp add: step_def select_commit_def handoff_def chan_send_def)
  have 5: "c \<notin> fired s \<and> \<not> chan_closed (done_ch (pool s)) \<longrightarrow> (\<forall>i k. step (Select i k) s = None)"
  proof (intro impI allI, elim conjE)
    fix i k
    assume "c \<notin> fired s" "\<not> chan_closed (done_ch (pool s))"
    with cap cx len0 show "step (Select i k) s = None"
      by (cases k) (simp_all add: step_def select_commit_def chan_send_def chan_recv_def)
  qed
  have 6: "\<forall>i < length (callers s). spc (callers s ! i) = AtSelect \<and> crashed s = None \<longrightarrow>
           (c \<in> fired s \<longrightarrow> step (Select i CaseCtxDone) s = Some (set_spc i AtCloseDone s))
           \<and> (chan_closed (done_ch (pool s)) \<longrightarrow>
                step (Select i CaseDone) s = Some (set_spc i (Returned False) s))"
    using cx len0 by (simp add: step_def select_commit_def chan_recv_def)
  show ?thesis
    by (rule conjI [OF 1 conjI [OF 2 conjI [OF pcs conjI [OF 4 conjI [OF 5 6]]]]])
qed

text \<open>
  The theorem at work: capacity 0 and one call of \<^verbatim>\<open>Run\<close>. It blocks; after cancellation,
  or after \<^verbatim>\<open>Exit\<close>, it returns \<^verbatim>\<open>false\<close>.
\<close>

theorem zero_capacity_never_admits_witness:
  "run 0 0 {} one_call_schedule = Some zero_blocked_state
   \<and> tasks zero_blocked_state = []
   \<and> 0 \<notin> fired zero_blocked_state \<and> \<not> chan_closed (done_ch (pool zero_blocked_state))
   \<and> step (Select 0 CaseCtxDone) zero_blocked_state = None
   \<and> step (Select 0 CaseDone) zero_blocked_state = None
   \<and> step (Select 0 CaseWork) zero_blocked_state = None
   \<and> run 0 0 {} cancel_schedule = Some zero_cancelled_state
   \<and> 0 < length (callers zero_cancelled_state)
   \<and> spc (callers zero_cancelled_state ! 0) = AtSelect
   \<and> crashed zero_cancelled_state = None \<and> 0 \<in> fired zero_cancelled_state
   \<and> step (Select 0 CaseWork) zero_cancelled_state = None
   \<and> map_option verdicts (exec [Select 0 CaseCtxDone, CallerStep 0] zero_cancelled_state)
        = Some [Returned False]
   \<and> map_option verdicts (exec [CallExit, Select 0 CaseDone] zero_cancelled_state)
        = Some [Returned False]"
proof -
  from zero_capacity_never_admits [OF run_zero_blocked]
  have a: "tasks zero_blocked_state = []" by blast
  from zero_capacity_never_admits [OF run_zero_cancelled]
  have b: "accepted zero_cancelled_state = 0" by blast
  from a b show ?thesis
    by (simp add: run_zero_blocked run_zero_cancelled zero_blocked_state_eq
          zero_cancelled_state_eq thread_defs verdicts_def)
qed

section \<open>The context handed to a task\<close>

text \<open>
  C10. The pool's context is the one given to \<^verbatim>\<open>New\<close>, for ever. Every goroutine that has
  called its task function has called it with that context, and what the user's function
  is handed follows from the entry point: through \<^verbatim>\<open>RunWithContextAndIndex\<close> and
  \<^verbatim>\<open>RunWithContext\<close> it receives exactly that context (and, through the former, the index);
  through \<^verbatim>\<open>Run\<close> it receives nothing. The entry points put the matching function value
  into the call, the \<^verbatim>\<open>go\<close> statement starts a goroutine with the function of its call,
  and no transition changes the function of a call or of a goroutine. The only
  transition that changes which contexts are cancelled is the cancellation source
  firing: \<^verbatim>\<open>Exit\<close> fires the closed signal and leaves the context's state, and the
  goroutines, as they are.
\<close>

theorem task_context_is_the_context_given_to_New:
  assumes "run c sz F as = Some s"
  shows "ctx (pool s) = c
     \<and> (\<forall>g \<in> set (tasks s). gpc g \<noteq> AtCall \<longrightarrow>
           (\<exists>i. args g = Some (c, i)
              \<and> (task g \<noteq> WrapPlain \<longrightarrow> fst (user_args (task g) c i) = Some c)
              \<and> (task g = Direct \<longrightarrow> user_args (task g) c i = (Some c, Some i))
              \<and> (task g = WrapCtx \<longrightarrow> user_args (task g) c i = (Some c, None))
              \<and> (task g = WrapPlain \<longrightarrow> user_args (task g) c i = (None, None))))
     \<and> (\<forall>i < length (callers s). spc (callers s ! i) = AtGo \<and> crashed s = None \<longrightarrow>
           (\<exists>s'. step (CallerStep i) s = Some s'
                \<and> tasks s' = tasks s @ [\<lparr>task = fn (callers s ! i), gpc = AtCall, args = None,
                                         panicking = False\<rparr>]))
     \<and> (\<forall>a s'. step a s = Some s' \<longrightarrow>
           take (length (tasks s)) (map task (tasks s')) = map task (tasks s)
           \<and> take (length (callers s)) (map fn (callers s')) = map fn (callers s))
     \<and> (\<forall>a s'. step a s = Some s' \<longrightarrow>
           fired s' = fired s \<or> (\<exists>d. a = Cancel d \<and> fired s' = insert d (fired s)))
     \<and> (crashed s = None \<longrightarrow>
           step CallRun s = Some (s\<lparr>callers := callers s @ [\<lparr>fn = WrapPlain, spc = AtSelect\<rparr>]\<rparr>)
           \<and> step CallRunWithContext s
               = Some (s\<lparr>callers := callers s @ [\<lparr>fn = WrapCtx, spc = AtSelect\<rparr>]\<rparr>)
           \<and> step CallRunWithContextAndIndex s
               = Some (s\<lparr>callers := callers s @ [\<lparr>fn = Direct, spc = AtSelect\<rparr>]\<rparr>)
           \<and> (\<exists>s'. step CallExit s = Some s' \<and> chan_closed (done_ch (pool s'))
                \<and> fired s' = fired s \<and> tasks s' = tasks s \<and> ctx (pool s') = c))"
proof -
  from assms have v: "inv_all c sz s" by (rule run_inv)
  then have 1: "ctx (pool s) = c" and t: "list_all (task_ok c) (tasks s)"
    by (auto simp: inv_all_def inv_index_def)
  have 2: "\<forall>g \<in> set (tasks s). gpc g \<noteq> AtCall \<longrightarrow>
           (\<exists>i. args g = Some (c, i)
              \<and> (task g \<noteq> WrapPlain \<longrightarrow> fst (user_args (task g) c i) = Some c)
              \<and> (task g = Direct \<longrightarrow> user_args (task g) c i = (Some c, Some i))
              \<and> (task g = WrapCtx \<longrightarrow> user_args (task g) c i = (Some c, None))
              \<and> (task g = WrapPlain \<longrightarrow> user_args (task g) c i = (None, None)))"
  proof (intro ballI impI)
    fix g
    assume "g \<in> set (tasks s)" and "gpc g \<noteq> AtCall"
    with t have "task_ok c g" and "gpc g \<noteq> AtCall" by (simp_all add: list_all_iff)
    then obtain i where a: "args g = Some (c, i)"
      by (cases "args g") (auto simp: task_ok_def)
    have "(task g \<noteq> WrapPlain \<longrightarrow> fst (user_args (task g) c i) = Some c)
              \<and> (task g = Direct \<longrightarrow> user_args (task g) c i = (Some c, Some i))
              \<and> (task g = WrapCtx \<longrightarrow> user_args (task g) c i = (Some c, None))
              \<and> (task g = WrapPlain \<longrightarrow> user_args (task g) c i = (None, None))"
      by (cases "task g") simp_all
    with a show "\<exists>i. args g = Some (c, i)
              \<and> (task g \<noteq> WrapPlain \<longrightarrow> fst (user_args (task g) c i) = Some c)
              \<and> (task g = Direct \<longrightarrow> user_args (task g) c i = (Some c, Some i))
              \<and> (task g = WrapCtx \<longrightarrow> user_args (task g) c i = (Some c, None))
              \<and> (task g = WrapPlain \<longrightarrow> user_args (task g) c i = (None, None))"
      by blast
  qed
  have 3: "\<forall>i < length (callers s). spc (callers s ! i) = AtGo \<and> crashed s = None \<longrightarrow>
           (\<exists>s'. step (CallerStep i) s = Some s'
                \<and> tasks s' = tasks s @ [\<lparr>task = fn (callers s ! i), gpc = AtCall, args = None,
                                         panicking = False\<rparr>])"
    by (simp add: step_def caller_step_def set_spc_def)
  have 4: "\<forall>a s'. step a s = Some s' \<longrightarrow>
           take (length (tasks s)) (map task (tasks s')) = map task (tasks s)
           \<and> take (length (callers s)) (map fn (callers s')) = map fn (callers s)"
    by (intro allI impI) (rule step_functions)
  have 5: "\<forall>a s'. step a s = Some s' \<longrightarrow>
           fired s' = fired s \<or> (\<exists>d. a = Cancel d \<and> fired s' = insert d (fired s))"
    by (intro allI impI) (rule step_fired)
  have 6: "crashed s = None \<longrightarrow>
           step CallRun s = Some (s\<lparr>callers := callers s @ [\<lparr>fn = WrapPlain, spc = AtSelect\<rparr>]\<rparr>)
           \<and> step CallRunWithContext s
               = Some (s\<lparr>callers := callers s @ [\<lparr>fn = WrapCtx, spc = AtSelect\<rparr>]\<rparr>)
           \<and> step CallRunWithContextAndIndex s
               = Some (s\<lparr>callers := callers s @ [\<lparr>fn = Direct, spc = AtSelect\<rparr>]\<rparr>)
           \<and> (\<exists>s'. step CallExit s = Some s' \<and> chan_closed (done_ch (pool s'))
                \<and> fired s' = fired s \<and> tasks s' = tasks s \<and> ctx (pool s') = c)"
    using closeDone_reachable [OF v] 1
    by (simp add: step_def Exit_def Run_def RunWithContext_def RunWithContextAndIndex_def)
  show ?thesis
    by (rule conjI [OF 1 conjI [OF 2 conjI [OF 3 conjI [OF 4 conjI [OF 5 6]]]]])
qed

text \<open>
  The theorem at work: \<^verbatim>\<open>New(7, 1)\<close> and a task submitted with \<^verbatim>\<open>RunWithContext\<close>. The call
  carries the wrapper of \<^verbatim>\<open>RunWithContext\<close>, its \<^verbatim>\<open>go\<close> statement starts a goroutine with
  that wrapper, and inside its body the user's function has been handed context 7 and no
  index. \<^verbatim>\<open>Exit\<close> leaves context 7 uncancelled; only the cancellation source cancels it.
\<close>

theorem task_context_is_the_context_given_to_New_witness:
  "run 7 1 {} context_schedule = Some context_state
   \<and> map_option (map fn \<circ> callers) (run 7 1 {} (take 1 context_schedule)) = Some [WrapCtx]
   \<and> map_option verdicts (run 7 1 {} (take 3 context_schedule)) = Some [AtGo]
   \<and> map_option crashed (run 7 1 {} (take 3 context_schedule)) = Some None
   \<and> map_option (map task \<circ> tasks) (run 7 1 {} (take 4 context_schedule)) = Some [WrapCtx]
   \<and> ctx (pool context_state) = 7
   \<and> map task (tasks context_state) = [WrapCtx]
   \<and> map gpc (tasks context_state) = [InBody]
   \<and> map args (tasks context_state) = [Some (7, 1)]
   \<and> user_args WrapCtx 7 1 = (Some 7, None)
   \<and> crashed context_state = None
   \<and> map_option (chan_closed \<circ> done_ch \<circ> pool) (step CallExit context_state) = Some True
   \<and> map_option fired (step CallExit context_state) = Some (fired context_state)
   \<and> map_option fired (step (Cancel 7) context_state) = Some {7}"
proof -
  let ?g = "hd (tasks context_state)"
  have g: "?g \<in> set (tasks context_state)" "gpc ?g \<noteq> AtCall" "task ?g \<noteq> WrapPlain"
    by (simp_all add: context_state_eq)
  from task_context_is_the_context_given_to_New [OF run_context] g
  have "\<exists>i. args ?g = Some (7, i) \<and> fst (user_args (task ?g) 7 i) = Some 7"
    by blast
  then have "fst (user_args WrapCtx 7 1) = Some 7"
    by (simp add: context_state_eq)
  moreover
  have r3: "run 7 1 {} (take 3 context_schedule)
              = Some (the (run 7 1 {} (take 3 context_schedule)))"
    by (simp add: context_schedule_def model_defs)
  from task_context_is_the_context_given_to_New [OF r3]
  have "ctx (pool (the (run 7 1 {} (take 3 context_schedule)))) = 7" by blast
  ultimately show ?thesis
    by (simp add: run_context context_state_eq context_schedule_def model_defs verdicts_def)
qed

end
